theory Spec2Isabelle
  imports Main "HOL-Library.Word" "HOL-Library.Sublist"
begin

section \<open>JavaScript strings\<close>

text \<open>
  A JavaScript string is a sequence of UTF-16 code units; \<open>length\<close>, \<open>slice\<close>,
  \<open>includes\<close> and \<open>trim\<close> all count and cut code units. \<open>js\<close> writes an ASCII
  literal as such a sequence.
\<close>

type_synonym jschar = "16 word"
type_synonym jsstring = "jschar list"

definition js :: "string \<Rightarrow> jsstring" where
  "js s = map of_char s"

text \<open>
  \<open>String.prototype.trim\<close> removes WhiteSpace and LineTerminator code units from both
  ends: TAB, LF, VT, FF, CR, SP, NBSP, U+1680, U+2000 to U+200A, U+2028, U+2029, U+202F,
  U+205F, U+3000 and U+FEFF.
\<close>

definition isWhiteSpace :: "jschar \<Rightarrow> bool" where
  "isWhiteSpace c \<longleftrightarrow>
     c = 0x9 \<or> c = 0xA \<or> c = 0xB \<or> c = 0xC \<or> c = 0xD \<or> c = 0x20 \<or> c = 0xA0 \<or>
     c = 0x1680 \<or> (0x2000 \<le> c \<and> c \<le> 0x200A) \<or> c = 0x2028 \<or> c = 0x2029 \<or>
     c = 0x202F \<or> c = 0x205F \<or> c = 0x3000 \<or> c = 0xFEFF"

definition trim :: "jsstring \<Rightarrow> jsstring" where
  "trim s = rev (dropWhile isWhiteSpace (rev (dropWhile isWhiteSpace s)))"

text \<open>
  \<open>String.prototype.toLowerCase\<close> follows the Unicode case tables: it maps every cased
  letter and can change the length of a string. Those tables are not part of the
  program, so the search below takes the function as a parameter. \<open>lowerBasicLatin\<close>
  is what it does on strings of the Basic Latin block (\<open>A\<close> to \<open>Z\<close> become \<open>a\<close> to
  \<open>z\<close>, the other code units of the block stay); it is not the built-in on other
  strings, and serves only as the instance at which the theorems on search are
  evaluated, on ASCII text.
\<close>

definition lowerUnit :: "jschar \<Rightarrow> jschar" where
  "lowerUnit c = (if 0x41 \<le> c \<and> c \<le> 0x5A then c + 0x20 else c)"

definition lowerBasicLatin :: "jsstring \<Rightarrow> jsstring" where
  "lowerBasicLatin s = map lowerUnit s"

text \<open>\<open>text.includes(q)\<close>: \<open>q\<close> occurs in \<open>text\<close> as a contiguous run.\<close>

fun includesStr :: "jsstring \<Rightarrow> jsstring \<Rightarrow> bool" where
  "includesStr [] q = (q = [])"
| "includesStr (c # cs) q = (prefix q (c # cs) \<or> includesStr cs q)"

text \<open>The decimal digits of a non-negative integer, as a template literal prints it.\<close>

fun digits :: "nat \<Rightarrow> jsstring" where
  "digits n = (if n < 10 then [of_nat (48 + n)]
               else digits (n div 10) @ [of_nat (48 + n mod 10)])"

declare digits.simps [simp del]

definition ellipsis :: jschar where
  "ellipsis = 0x2026"

section \<open>Data model\<close>

datatype role = User | Assistant

text \<open>
  A message object. The property \<open>error\<close> is only present (and \<open>true\<close>) on the message
  built in the \<open>catch\<close> block of \<open>handleSend\<close>; absent reads as false.
\<close>

record message =
  m_id :: jsstring
  m_role :: role
  m_content :: jsstring
  m_createdAt :: jsstring
  m_error :: bool

record session =
  s_id :: jsstring
  s_title :: jsstring
  s_createdAt :: jsstring
  s_messages :: "message list"

record auth =
  a_id :: jsstring
  a_name :: jsstring
  a_email :: jsstring

text \<open>The six \<open>useState\<close> cells of \<open>App\<close>.\<close>

record app_state =
  sessions :: "session list"
  activeSessionId :: "jsstring option"
  question :: jsstring
  isSending :: bool
  authUser :: "auth option"
  search :: jsstring

text \<open>
  One reading of the clock: \<open>Date.now()\<close> in milliseconds and
  \<open>new Date().toISOString()\<close>.
\<close>

record clock =
  date_now :: nat
  toISOString :: jsstring

section \<open>The session store of \<open>App\<close>\<close>

text \<open>
  \<open>sessions.find(s => s.id === activeSessionId) || null\<close>. A null pointer matches no
  session.
\<close>

definition activeSession :: "app_state \<Rightarrow> session option" where
  "activeSession st =
     (case activeSessionId st of
        None \<Rightarrow> None
      | Some a \<Rightarrow> find (\<lambda>s. s_id s = a) (sessions st))"

definition createNewSession :: "clock \<Rightarrow> jsstring \<Rightarrow> session" where
  "createNewSession t title =
     \<lparr>s_id = js ''sess_'' @ digits (date_now t),
      s_title = title,
      s_createdAt = toISOString t,
      s_messages = []\<rparr>"

definition handleNewSession :: "clock \<Rightarrow> app_state \<Rightarrow> app_state" where
  "handleNewSession t st =
     (let s = createNewSession t (js ''New Session'')
      in st\<lparr>sessions := s # sessions st, activeSessionId := Some (s_id s)\<rparr>)"

text \<open>
  \<open>handleDeleteSession(id)\<close>. The new pointer is computed from the sessions of the
  current render; \<open>?.id || null\<close> gives null when no other session is found, and also
  when the one found has the empty string as its id.
\<close>

definition handleDeleteSession :: "jsstring \<Rightarrow> app_state \<Rightarrow> app_state" where
  "handleDeleteSession i st =
     st\<lparr>sessions := filter (\<lambda>s. s_id s \<noteq> i) (sessions st),
        activeSessionId :=
          (if activeSessionId st = Some i
           then (case find (\<lambda>s. s_id s \<noteq> i) (sessions st) of
                   None \<Rightarrow> None
                 | Some s \<Rightarrow> if s_id s = [] then None else Some (s_id s))
           else activeSessionId st)\<rparr>"

text \<open>
  The click handler of the Rename button. \<open>prompt\<close> returns the typed string, or null
  when the dialog is cancelled.
\<close>

definition handleRename :: "jsstring option \<Rightarrow> app_state \<Rightarrow> app_state" where
  "handleRename prompted st =
     (case activeSession st of
        None \<Rightarrow> st
      | Some a \<Rightarrow>
          (case prompted of
             None \<Rightarrow> st
           | Some title \<Rightarrow>
               if title \<noteq> [] \<and> trim title \<noteq> []
               then st\<lparr>sessions :=
                         map (\<lambda>s. if s_id s = s_id a then s\<lparr>s_title := trim title\<rparr> else s)
                           (sessions st)\<rparr>
               else st))"

definition truncateTitle :: "jsstring \<Rightarrow> nat \<Rightarrow> jsstring" where
  "truncateTitle text len =
     (if length text > len then take len text @ [ellipsis] else text)"

text \<open>
  \<open>updateActiveSessionMessages(updater)\<close>: the functional update runs on the sessions
  current when it is applied; the pointer is the one the handler closed over.
\<close>

definition updateActiveSessionMessages ::
    "jsstring option \<Rightarrow> (message list \<Rightarrow> message list) \<Rightarrow> app_state \<Rightarrow> app_state" where
  "updateActiveSessionMessages aid updater st =
     st\<lparr>sessions :=
          map (\<lambda>s. if Some (s_id s) \<noteq> aid then s
                   else s\<lparr>s_messages := updater (s_messages s)\<rparr>)
            (sessions st)\<rparr>"

text \<open>Sequences of the two operations on the collection, run from left to right.\<close>

datatype storeOp = NewSession clock | DeleteSession jsstring

fun applyOp :: "storeOp \<Rightarrow> app_state \<Rightarrow> app_state" where
  "applyOp (NewSession t) st = handleNewSession t st"
| "applyOp (DeleteSession i) st = handleDeleteSession i st"

fun runOps :: "storeOp list \<Rightarrow> app_state \<Rightarrow> app_state" where
  "runOps [] st = st"
| "runOps (x # xs) st = runOps xs (applyOp x st)"

text \<open>The clock readings of the creations in a sequence.\<close>

fun opTimes :: "storeOp list \<Rightarrow> nat list" where
  "opTimes [] = []"
| "opTimes (NewSession t # xs) = date_now t # opTimes xs"
| "opTimes (DeleteSession i # xs) = opTimes xs"

section \<open>Search\<close>

text \<open>
  The memoised \<open>filteredSessions\<close>, as a function of the sessions and the search
  text. Its first argument stands for \<open>String.prototype.toLowerCase\<close>.
\<close>

definition filteredSessions ::
    "(jsstring \<Rightarrow> jsstring) \<Rightarrow> session list \<Rightarrow> jsstring \<Rightarrow> session list" where
  "filteredSessions toLowerCase ss srch =
     (let q = toLowerCase (trim srch)
      in if q = [] then ss
         else filter (\<lambda>s. includesStr (toLowerCase (s_title s)) q \<or>
                          list_ex (\<lambda>m. includesStr (toLowerCase (m_content m)) q) (s_messages s))
                ss)"

text \<open>
  The search contract as the specification words it: the input unchanged when the query
  trims to nothing, else the sessions whose lowercase title, or some message's lowercase
  content, contains the lowercase query.
\<close>

definition spec_filterSessions ::
    "(jsstring \<Rightarrow> jsstring) \<Rightarrow> session list \<Rightarrow> jsstring \<Rightarrow> session list" where
  "spec_filterSessions toLowerCase ss query =
     (if trim query = [] then ss
      else filter (\<lambda>s. includesStr (toLowerCase (s_title s)) (toLowerCase query) \<or>
                       list_ex (\<lambda>m. includesStr (toLowerCase (m_content m)) (toLowerCase query))
                         (s_messages s))
             ss)"

section \<open>Sending a question\<close>

text \<open>The exceptions that the program can meet.\<close>

datatype exn = SecurityError | QuotaExceededError | SyntaxError | TypeError

text \<open>
  The reason a promise is rejected with can be any value: \<open>null\<close> or \<open>undefined\<close>
  (as after \<open>Promise.reject()\<close>), or a value whose property \<open>message\<close> can be read,
  given here when it is there.
\<close>

datatype reason = Nullish | Thrown "jsstring option"

text \<open>
  How the promise of \<open>ApiClient.askQuestion\<close> settles: fulfilled with an object whose
  \<open>answer\<close> is given, or rejected with a reason.
\<close>

datatype outcome = Resolved jsstring | Rejected reason

text \<open>What the running \<open>handleSend\<close> holds across the \<open>await\<close>.\<close>

record pending =
  p_activeSessionId :: "jsstring option"
  p_activeSession :: session
  p_userMsg :: message

text \<open>The three message objects \<open>handleSend\<close> builds.\<close>

definition userMsg :: "clock \<Rightarrow> jsstring \<Rightarrow> message" where
  "userMsg t q =
     \<lparr>m_id = js ''m_'' @ digits (date_now t), m_role = User, m_content = trim q,
      m_createdAt = toISOString t, m_error = False\<rparr>"

definition assistantMsg :: "clock \<Rightarrow> jsstring \<Rightarrow> message" where
  "assistantMsg t answer =
     \<lparr>m_id = js ''m_'' @ digits (date_now t) @ js ''_asst'', m_role = Assistant,
      m_content = answer, m_createdAt = toISOString t, m_error = False\<rparr>"

text \<open>
  The object built in the \<open>catch\<close> block. Reading \<open>e.message\<close> of \<open>null\<close> or
  \<open>undefined\<close> throws a \<open>TypeError\<close>, and then no object is built. In
  \<open>e.message || 'Unable to get answer.'\<close> a missing or empty message is replaced.
\<close>

definition errMsg :: "clock \<Rightarrow> reason \<Rightarrow> exn + message" where
  "errMsg t e =
     (case e of
        Nullish \<Rightarrow> Inl TypeError
      | Thrown msg \<Rightarrow>
          Inr \<lparr>m_id = js ''m_'' @ digits (date_now t) @ js ''_err'', m_role = Assistant,
               m_content = js ''Error: '' @
                 (case msg of
                    None \<Rightarrow> js ''Unable to get answer.''
                  | Some x \<Rightarrow> if x = [] then js ''Unable to get answer.'' else x),
               m_createdAt = toISOString t, m_error = True\<rparr>)"

text \<open>\<open>handleSend\<close> up to the \<open>await\<close>; no pending call when the guard returns early.\<close>

definition handleSend_begin :: "clock \<Rightarrow> app_state \<Rightarrow> app_state \<times> pending option" where
  "handleSend_begin t st =
     (case activeSession st of
        None \<Rightarrow> (st, None)
      | Some a \<Rightarrow>
          if trim (question st) = [] then (st, None)
          else
            let u = userMsg t (question st);
                st1 = st\<lparr>isSending := True\<rparr>;
                st2 = updateActiveSessionMessages (activeSessionId st) (\<lambda>d. d @ [u]) st1;
                st3 = st2\<lparr>question := []\<rparr>
            in (st3, Some \<lparr>p_activeSessionId = activeSessionId st, p_activeSession = a,
                           p_userMsg = u\<rparr>))"

text \<open>
  \<open>handleSend\<close> from the settled promise on: \<open>try\<close> tail, \<open>catch\<close>, \<open>finally\<close>. The
  result is the state afterwards and the exception that leaves \<open>handleSend\<close>, if one
  does: an exception thrown inside \<open>catch\<close> is not caught again, and \<open>finally\<close> runs
  before it leaves.
\<close>

definition handleSend_settle ::
    "clock \<Rightarrow> pending \<Rightarrow> outcome \<Rightarrow> app_state \<Rightarrow> app_state \<times> exn option" where
  "handleSend_settle t p out st =
     (case out of
        Resolved answer \<Rightarrow>
          let st1 = updateActiveSessionMessages (p_activeSessionId p)
                      (\<lambda>d. d @ [assistantMsg t answer]) st;
              st2 = (if length (s_messages (p_activeSession p)) = 0
                     then st1\<lparr>sessions :=
                                map (\<lambda>s. if s_id s = s_id (p_activeSession p)
                                         then s\<lparr>s_title := truncateTitle (m_content (p_userMsg p)) 42\<rparr>
                                         else s)
                                  (sessions st1)\<rparr>
                     else st1)
          in (st2\<lparr>isSending := False\<rparr>, None)
      | Rejected e \<Rightarrow>
          (case errMsg t e of
             Inl x \<Rightarrow> (st\<lparr>isSending := False\<rparr>, Some x)
           | Inr m \<Rightarrow>
               let st1 = updateActiveSessionMessages (p_activeSessionId p) (\<lambda>d. d @ [m]) st
               in (st1\<lparr>isSending := False\<rparr>, None)))"

text \<open>
  A whole send with nothing else happening while the call is in flight: \<open>ta\<close> is the
  clock before the \<open>await\<close>, \<open>tb\<close> the clock after it. \<open>handleSend\<close> is the state
  afterwards, \<open>handleSend_error\<close> the exception with which the promise of
  \<open>handleSend\<close> is rejected, if it is.
\<close>

definition handleSend_run ::
    "clock \<Rightarrow> clock \<Rightarrow> outcome \<Rightarrow> app_state \<Rightarrow> app_state \<times> exn option" where
  "handleSend_run ta tb out st =
     (case handleSend_begin ta st of
        (st', None) \<Rightarrow> (st', None)
      | (st', Some p) \<Rightarrow> handleSend_settle tb p out st')"

definition handleSend :: "clock \<Rightarrow> clock \<Rightarrow> outcome \<Rightarrow> app_state \<Rightarrow> app_state" where
  "handleSend ta tb out st = fst (handleSend_run ta tb out st)"

definition handleSend_error :: "clock \<Rightarrow> clock \<Rightarrow> outcome \<Rightarrow> app_state \<Rightarrow> exn option" where
  "handleSend_error ta tb out st = snd (handleSend_run ta tb out st)"

section \<open>JSON text\<close>

text \<open>
  \<open>MockStorage\<close> keeps the sessions as JSON text. The values that
  \<open>JSON.stringify\<close> prints and \<open>JSON.parse\<close> returns are null, booleans, numbers,
  strings, arrays, and objects as lists of properties in insertion order. A number is
  kept as its literal; its value as a double is not needed here, since sessions and
  messages hold none.
\<close>

datatype json =
    JNull
  | JBool bool
  | JNum jsstring
  | JStr jsstring
  | JArr "json list"
  | JObj "(jsstring \<times> json) list"

subsection \<open>\<open>JSON.stringify\<close>\<close>

text \<open>
  A string is printed between double quotes. The quote, the backslash and the control
  characters backspace, tab, line feed, form feed and carriage return get their
  two-character escapes; any other code unit below \<open>0x20\<close> and any surrogate that is
  not part of a pair is printed as a backslash, \<open>u\<close> and four lowercase hexadecimal
  digits; every other code unit, and both halves of a surrogate pair, are printed as
  they are.
\<close>

definition hexDigit :: "nat \<Rightarrow> jschar" where
  "hexDigit d = of_nat (if d < 10 then 48 + d else 87 + d)"

definition hex4 :: "jschar \<Rightarrow> jsstring" where
  "hex4 c = map hexDigit
     [unat c div 4096 mod 16, unat c div 256 mod 16, unat c div 16 mod 16, unat c mod 16]"

definition isSurrogate :: "jschar \<Rightarrow> bool" where
  "isSurrogate c \<longleftrightarrow> 0xD800 \<le> c \<and> c \<le> 0xDFFF"

definition isPair :: "jschar \<Rightarrow> jschar \<Rightarrow> bool" where
  "isPair c d \<longleftrightarrow> 0xD800 \<le> c \<and> c \<le> 0xDBFF \<and> 0xDC00 \<le> d \<and> d \<le> 0xDFFF"

definition escapeUnit :: "jschar \<Rightarrow> jsstring" where
  "escapeUnit c =
     (if c = 0x08 then [0x5C, 0x62]
      else if c = 0x09 then [0x5C, 0x74]
      else if c = 0x0A then [0x5C, 0x6E]
      else if c = 0x0C then [0x5C, 0x66]
      else if c = 0x0D then [0x5C, 0x72]
      else if c = 0x22 then [0x5C, 0x22]
      else if c = 0x5C then [0x5C, 0x5C]
      else if c < 0x20 \<or> isSurrogate c then [0x5C, 0x75] @ hex4 c
      else [c])"

fun quoteChars :: "jsstring \<Rightarrow> jsstring" where
  "quoteChars [] = []"
| "quoteChars [c] = escapeUnit c"
| "quoteChars (c # d # cs) =
     (if isPair c d then c # d # quoteChars cs else escapeUnit c @ quoteChars (d # cs))"

definition quoteJSONString :: "jsstring \<Rightarrow> jsstring" where
  "quoteJSONString s = 0x22 # quoteChars s @ [0x22]"

text \<open>
  Values are printed without any white space: array elements and object properties are
  separated by commas, a property is its quoted name, a colon and its value.
\<close>

fun stringify :: "json \<Rightarrow> jsstring" where
  "stringify JNull = js ''null''"
| "stringify (JBool b) = (if b then js ''true'' else js ''false'')"
| "stringify (JNum l) = l"
| "stringify (JStr s) = quoteJSONString s"
| "stringify (JArr []) = [0x5B, 0x5D]"
| "stringify (JArr (x # xs)) =
     0x5B # stringify x @ concat (map (\<lambda>y. 0x2C # stringify y) xs) @ [0x5D]"
| "stringify (JObj []) = [0x7B, 0x7D]"
| "stringify (JObj (kv # kvs)) =
     0x7B # quoteJSONString (fst kv) @ 0x3A # stringify (snd kv) @
       concat (map (\<lambda>p. 0x2C # quoteJSONString (fst p) @ 0x3A # stringify (snd p)) kvs) @ [0x7D]"


subsection \<open>\<open>JSON.parse\<close>: tokens\<close>

text \<open>
  The text is first cut into tokens. White space between tokens is space, tab, line
  feed and carriage return. A number is the longest run of digits, signs, dots and
  exponent letters, and must match the JSON number grammar. Inside a string a code
  unit below \<open>0x20\<close> is an error, and a backslash starts an escape: it is followed
  by a double quote, a backslash, a slash, one of \<open>b\<close>, \<open>f\<close>, \<open>n\<close>, \<open>r\<close>, \<open>t\<close>, or
  by \<open>u\<close> and four hexadecimal digits. \<open>None\<close> stands for the \<open>SyntaxError\<close>.
\<close>

datatype token =
    TLBrace | TRBrace | TLBracket | TRBracket | TColon | TComma
  | TNull | TTrue | TFalse
  | TNum jsstring
  | TStr jsstring

definition isDigit :: "jschar \<Rightarrow> bool" where
  "isDigit c \<longleftrightarrow> 0x30 \<le> c \<and> c \<le> 0x39"

definition isNumChar :: "jschar \<Rightarrow> bool" where
  "isNumChar c \<longleftrightarrow> isDigit c \<or> c = 0x2B \<or> c = 0x2D \<or> c = 0x2E \<or> c = 0x45 \<or> c = 0x65"

definition isJsonSpace :: "jschar \<Rightarrow> bool" where
  "isJsonSpace c \<longleftrightarrow> c = 0x20 \<or> c = 0x09 \<or> c = 0x0A \<or> c = 0x0D"

text \<open>
  The number grammar: an optional minus, then \<open>0\<close> or a digit from 1 to 9 followed by
  digits, then optionally a dot and at least one digit, then optionally \<open>e\<close> or \<open>E\<close>,
  an optional sign and at least one digit.
\<close>

definition digits1 :: "jsstring \<Rightarrow> bool" where
  "digits1 r \<longleftrightarrow> r \<noteq> [] \<and> list_all isDigit r"

definition validExp :: "jsstring \<Rightarrow> bool" where
  "validExp r =
     (case r of
        [] \<Rightarrow> True
      | e # r' \<Rightarrow>
          (e = 0x45 \<or> e = 0x65) \<and>
          (case r' of
             [] \<Rightarrow> False
           | s # r'' \<Rightarrow> if s = 0x2B \<or> s = 0x2D then digits1 r'' else digits1 r'))"

definition validFrac :: "jsstring \<Rightarrow> bool" where
  "validFrac r =
     (case r of
        [] \<Rightarrow> True
      | c # r' \<Rightarrow>
          if c = 0x2E
          then (case r' of [] \<Rightarrow> False | d # _ \<Rightarrow> isDigit d \<and> validExp (dropWhile isDigit r'))
          else validExp r)"

definition validInt :: "jsstring \<Rightarrow> bool" where
  "validInt r =
     (case r of
        [] \<Rightarrow> False
      | c # r' \<Rightarrow>
          if c = 0x30 then validFrac r'
          else if 0x31 \<le> c \<and> c \<le> 0x39 then validFrac (dropWhile isDigit r')
          else False)"

definition validNumber :: "jsstring \<Rightarrow> bool" where
  "validNumber s =
     (case s of [] \<Rightarrow> False | c # r \<Rightarrow> if c = 0x2D then validInt r else validInt s)"

definition unhexDigit :: "jschar \<Rightarrow> nat option" where
  "unhexDigit c =
     (if 0x30 \<le> c \<and> c \<le> 0x39 then Some (unat c - 48)
      else if 0x61 \<le> c \<and> c \<le> 0x66 then Some (unat c - 87)
      else if 0x41 \<le> c \<and> c \<le> 0x46 then Some (unat c - 55)
      else None)"

definition unhex4 :: "jschar \<Rightarrow> jschar \<Rightarrow> jschar \<Rightarrow> jschar \<Rightarrow> jschar option" where
  "unhex4 h1 h2 h3 h4 =
     (case (unhexDigit h1, unhexDigit h2, unhexDigit h3, unhexDigit h4) of
        (Some d1, Some d2, Some d3, Some d4) \<Rightarrow>
          Some (of_nat (((d1 * 16 + d2) * 16 + d3) * 16 + d4))
      | _ \<Rightarrow> None)"

definition unescape :: "jschar \<Rightarrow> jschar option" where
  "unescape e =
     (if e = 0x22 then Some 0x22
      else if e = 0x5C then Some 0x5C
      else if e = 0x2F then Some 0x2F
      else if e = 0x62 then Some 0x08
      else if e = 0x66 then Some 0x0C
      else if e = 0x6E then Some 0x0A
      else if e = 0x72 then Some 0x0D
      else if e = 0x74 then Some 0x09
      else None)"

text \<open>
  \<open>lex\<close> reads tokens, \<open>lexStr\<close> the rest of a string after its opening quote, with
  the code units read so far in reverse.
\<close>

definition cons :: "token \<Rightarrow> token list option \<Rightarrow> token list option" where
  "cons t r = map_option ((#) t) r"

function lex :: "jsstring \<Rightarrow> token list option"
  and lexStr :: "jsstring \<Rightarrow> jsstring \<Rightarrow> token list option"
where
  "lex [] = Some []"
| "lex (c # cs) =
     (if isJsonSpace c then lex cs
      else if c = 0x7B then cons TLBrace (lex cs)
      else if c = 0x7D then cons TRBrace (lex cs)
      else if c = 0x5B then cons TLBracket (lex cs)
      else if c = 0x5D then cons TRBracket (lex cs)
      else if c = 0x3A then cons TColon (lex cs)
      else if c = 0x2C then cons TComma (lex cs)
      else if c = 0x22 then lexStr [] cs
      else if isDigit c \<or> c = 0x2D then
        (if validNumber (c # takeWhile isNumChar cs)
         then cons (TNum (c # takeWhile isNumChar cs)) (lex (dropWhile isNumChar cs))
         else None)
      else if take 4 (c # cs) = js ''null'' then cons TNull (lex (drop 3 cs))
      else if take 4 (c # cs) = js ''true'' then cons TTrue (lex (drop 3 cs))
      else if take 5 (c # cs) = js ''false'' then cons TFalse (lex (drop 4 cs))
      else None)"
| "lexStr acc [] = None"
| "lexStr acc (c # cs) =
     (if c = 0x22 then cons (TStr (rev acc)) (lex cs)
      else if c = 0x5C then
        (case cs of
           [] \<Rightarrow> None
         | e # es \<Rightarrow>
             if e = 0x75 then
               (case es of
                  h1 # h2 # h3 # h4 # r \<Rightarrow>
                    (case unhex4 h1 h2 h3 h4 of
                       None \<Rightarrow> None
                     | Some u \<Rightarrow> lexStr (u # acc) r)
                | _ \<Rightarrow> None)
             else (case unescape e of None \<Rightarrow> None | Some u \<Rightarrow> lexStr (u # acc) es))
      else if c < 0x20 then None
      else lexStr (c # acc) cs)"
  by pat_completeness auto
termination
  by (relation "measure (\<lambda>x. case x of Inl cs \<Rightarrow> length cs | Inr (acc, cs) \<Rightarrow> length cs)")
     (auto simp: le_imp_less_Suc length_dropWhile_le)

declare lex.simps [simp del] lexStr.simps [simp del]

subsection \<open>\<open>JSON.parse\<close>: values\<close>

text \<open>
  Setting a property, of an object being parsed or of the store: a name already present
  keeps its place and takes the new value, a new name goes to the end. (The special
  order that JavaScript gives to property names that are array indices is not modelled;
  the properties of sessions and messages are not of that kind.)
\<close>

fun objPut :: "'k \<Rightarrow> 'v \<Rightarrow> ('k \<times> 'v) list \<Rightarrow> ('k \<times> 'v) list" where
  "objPut k v [] = [(k, v)]"
| "objPut k v (p # ps) = (if fst p = k then (k, v) # ps else p # objPut k v ps)"

text \<open>
  The recursive descent over the tokens. The first argument bounds the depth of the
  recursion; \<open>JSON_parse\<close> passes the number of tokens, which is always enough
  (\<open>parseValue_fuel\<close> below). \<open>parseElems\<close> reads the rest of an array after an
  element, \<open>parseMembers\<close> the rest of an object after a property.
\<close>

fun parseValue :: "nat \<Rightarrow> token list \<Rightarrow> (json \<times> token list) option"
  and parseElems :: "nat \<Rightarrow> json list \<Rightarrow> token list \<Rightarrow> (json list \<times> token list) option"
  and parseMembers :: "nat \<Rightarrow> (jsstring \<times> json) list \<Rightarrow> token list \<Rightarrow>
        ((jsstring \<times> json) list \<times> token list) option"
where
  "parseValue 0 ts = None"
| "parseValue (Suc n) [] = None"
| "parseValue (Suc n) (t # ts) =
     (case t of
        TNull \<Rightarrow> Some (JNull, ts)
      | TTrue \<Rightarrow> Some (JBool True, ts)
      | TFalse \<Rightarrow> Some (JBool False, ts)
      | TNum l \<Rightarrow> Some (JNum l, ts)
      | TStr s \<Rightarrow> Some (JStr s, ts)
      | TLBracket \<Rightarrow>
          (case ts of
             TRBracket # r \<Rightarrow> Some (JArr [], r)
           | _ \<Rightarrow>
               (case parseValue n ts of
                  None \<Rightarrow> None
                | Some (v, r) \<Rightarrow>
                    (case parseElems n [v] r of
                       None \<Rightarrow> None
                     | Some (vs, r') \<Rightarrow> Some (JArr vs, r'))))
      | TLBrace \<Rightarrow>
          (case ts of
             TRBrace # r \<Rightarrow> Some (JObj [], r)
           | TStr k # TColon # r \<Rightarrow>
               (case parseValue n r of
                  None \<Rightarrow> None
                | Some (v, r') \<Rightarrow>
                    (case parseMembers n [(k, v)] r' of
                       None \<Rightarrow> None
                     | Some (kvs, r'') \<Rightarrow> Some (JObj kvs, r'')))
           | _ \<Rightarrow> None)
      | _ \<Rightarrow> None)"
| "parseElems 0 acc ts = None"
| "parseElems (Suc n) acc [] = None"
| "parseElems (Suc n) acc (t # ts) =
     (case t of
        TRBracket \<Rightarrow> Some (rev acc, ts)
      | TComma \<Rightarrow>
          (case parseValue n ts of
             None \<Rightarrow> None
           | Some (v, r) \<Rightarrow> parseElems n (v # acc) r)
      | _ \<Rightarrow> None)"
| "parseMembers 0 acc ts = None"
| "parseMembers (Suc n) acc [] = None"
| "parseMembers (Suc n) acc (t # ts) =
     (case t of
        TRBrace \<Rightarrow> Some (acc, ts)
      | TComma \<Rightarrow>
          (case ts of
             TStr k # TColon # r \<Rightarrow>
               (case parseValue n r of
                  None \<Rightarrow> None
                | Some (v, r') \<Rightarrow> parseMembers n (objPut k v acc) r')
           | _ \<Rightarrow> None)
      | _ \<Rightarrow> None)"

text \<open>The whole text must be one value.\<close>

definition JSON_parse :: "jsstring \<Rightarrow> exn + json" where
  "JSON_parse text =
     (case lex text of
        None \<Rightarrow> Inl SyntaxError
      | Some ts \<Rightarrow>
          (case parseValue (length ts) ts of
             Some (v, []) \<Rightarrow> Inr v
           | _ \<Rightarrow> Inl SyntaxError))"

subsection \<open>The tokens of a value, for the round trip\<close>

text \<open>
  Notions used to state that parsing undoes printing: the tokens that the text of a
  value is cut into; the values that print to valid text (number literals that follow
  the grammar, property names that do not repeat); and the texts that may follow a
  number without running into it.
\<close>

definition okAfter :: "jsstring \<Rightarrow> bool" where
  "okAfter rest = (case rest of [] \<Rightarrow> True | c # _ \<Rightarrow> \<not> isNumChar c)"

fun jsonSafe :: "json \<Rightarrow> bool" where
  "jsonSafe JNull = True"
| "jsonSafe (JBool b) = True"
| "jsonSafe (JNum l) = (validNumber l \<and> list_all isNumChar l)"
| "jsonSafe (JStr s) = True"
| "jsonSafe (JArr xs) = list_all jsonSafe xs"
| "jsonSafe (JObj kvs) = (distinct (map fst kvs) \<and> list_all (\<lambda>p. jsonSafe (snd p)) kvs)"

fun toks :: "json \<Rightarrow> token list" where
  "toks JNull = [TNull]"
| "toks (JBool b) = (if b then [TTrue] else [TFalse])"
| "toks (JNum l) = [TNum l]"
| "toks (JStr s) = [TStr s]"
| "toks (JArr []) = [TLBracket, TRBracket]"
| "toks (JArr (x # xs)) =
     TLBracket # toks x @ concat (map (\<lambda>y. TComma # toks y) xs) @ [TRBracket]"
| "toks (JObj []) = [TLBrace, TRBrace]"
| "toks (JObj (kv # kvs)) =
     TLBrace # TStr (fst kv) # TColon # toks (snd kv) @
       concat (map (\<lambda>p. TComma # TStr (fst p) # TColon # toks (snd p)) kvs) @ [TRBrace]"

definition appendToks :: "token list \<Rightarrow> token list option \<Rightarrow> token list option" where
  "appendToks ts r = map_option ((@) ts) r"

section \<open>The key-value store\<close>

text \<open>
  \<open>localStorage\<close>: string keys and values in insertion order. Access throws
  \<open>SecurityError\<close> when the page is denied storage; \<open>setItem\<close> throws
  \<open>QuotaExceededError\<close> when the stored keys and values would take more code units
  than the quota.
\<close>

record localStorage =
  ls_items :: "(jsstring \<times> jsstring) list"
  ls_denied :: bool
  ls_quota :: nat

definition storedSize :: "(jsstring \<times> jsstring) list \<Rightarrow> nat" where
  "storedSize items = sum_list (map (\<lambda>p. length (fst p) + length (snd p)) items)"

definition getItem :: "localStorage \<Rightarrow> jsstring \<Rightarrow> exn + jsstring option" where
  "getItem ls k = (if ls_denied ls then Inl SecurityError else Inr (map_of (ls_items ls) k))"

definition setItem :: "localStorage \<Rightarrow> jsstring \<Rightarrow> jsstring \<Rightarrow> exn + localStorage" where
  "setItem ls k v =
     (if ls_denied ls then Inl SecurityError
      else if storedSize (objPut k v (ls_items ls)) > ls_quota ls then Inl QuotaExceededError
      else Inr (ls\<lparr>ls_items := objPut k v (ls_items ls)\<rparr>))"

section \<open>\<open>MockStorage\<close>\<close>

definition MockStorage_key :: jsstring where
  "MockStorage_key = js ''ocean_sessions_v1''"

text \<open>The \<open>try\<close> block of \<open>loadSessions\<close>; \<open>!raw\<close> holds of null and of the empty string.\<close>

definition loadSessions_try :: "localStorage \<Rightarrow> exn + json list" where
  "loadSessions_try ls =
     (case getItem ls MockStorage_key of
        Inl e \<Rightarrow> Inl e
      | Inr None \<Rightarrow> Inr []
      | Inr (Some raw) \<Rightarrow>
          if raw = [] then Inr []
          else (case JSON_parse raw of
                  Inl e \<Rightarrow> Inl e
                | Inr parsed \<Rightarrow> Inr (case parsed of JArr xs \<Rightarrow> xs | _ \<Rightarrow> [])))"

text \<open>\<open>loadSessions\<close>, with its \<open>catch\<close>.\<close>

definition loadSessions :: "localStorage \<Rightarrow> exn + json list" where
  "loadSessions ls = (case loadSessions_try ls of Inl e \<Rightarrow> Inr [] | Inr xs \<Rightarrow> Inr xs)"

text \<open>\<open>saveSessions\<close>: a write that throws is ignored and leaves the store as it was.\<close>

definition saveSessions :: "localStorage \<Rightarrow> json list \<Rightarrow> exn + localStorage" where
  "saveSessions ls ss =
     (case setItem ls MockStorage_key (stringify (JArr ss)) of
        Inl e \<Rightarrow> Inr ls
      | Inr ls' \<Rightarrow> Inr ls')"

text \<open>
  The session and message records as the objects the program builds, with their
  properties in the order of the object literals.
\<close>

definition jsMessage :: "message \<Rightarrow> json" where
  "jsMessage m =
     JObj ([(js ''id'', JStr (m_id m)),
            (js ''role'', JStr (case m_role m of User \<Rightarrow> js ''user'' | Assistant \<Rightarrow> js ''assistant'')),
            (js ''content'', JStr (m_content m)),
            (js ''createdAt'', JStr (m_createdAt m))] @
           (if m_error m then [(js ''error'', JBool True)] else []))"

definition jsSession :: "session \<Rightarrow> json" where
  "jsSession s =
     JObj [(js ''id'', JStr (s_id s)),
           (js ''title'', JStr (s_title s)),
           (js ''createdAt'', JStr (s_createdAt s)),
           (js ''messages'', JArr (map jsMessage (s_messages s)))]"

section \<open>Sample data\<close>

text \<open>
  Two clock readings 650 milliseconds apart, and the states and stores at which the
  theorems below are evaluated.
\<close>

definition clockA :: clock where
  "clockA = \<lparr>date_now = 1700000000000, toISOString = js ''2023-11-14T22:13:20.000Z''\<rparr>"

definition clockB :: clock where
  "clockB = \<lparr>date_now = 1700000000650, toISOString = js ''2023-11-14T22:13:20.650Z''\<rparr>"

definition mkSession :: "string \<Rightarrow> string \<Rightarrow> message list \<Rightarrow> session" where
  "mkSession i title ms =
     \<lparr>s_id = js i, s_title = js title, s_createdAt = toISOString clockA, s_messages = ms\<rparr>"

definition mkState :: "session list \<Rightarrow> string \<Rightarrow> string \<Rightarrow> app_state" where
  "mkState ss active q =
     \<lparr>sessions = ss, activeSessionId = Some (js active), question = js q,
      isSending = False, authUser = None, search = []\<rparr>"

definition newSession1 :: session where
  "newSession1 = mkSession ''s1'' ''New Session'' []"

definition stBtree :: app_state where
  "stBtree = mkState [newSession1] ''s1'' ''What is a B-tree?''"

definition stLong :: app_state where
  "stLong = mkState [newSession1] ''s1''
     ''Why does a B-tree stay balanced when many keys are inserted?''"

definition stBlank :: app_state where
  "stBlank = mkState [newSession1] ''s1'' ''   ''"

definition stHi :: app_state where
  "stHi = mkState [newSession1] ''s1'' '' hi''"

definition stTwo :: app_state where
  "stTwo = mkState [mkSession ''s1'' ''A'' [], mkSession ''s2'' ''B'' []] ''s2'' []"

definition emptyState :: app_state where
  "emptyState =
     \<lparr>sessions = [], activeSessionId = None, question = [], isSending = False,
      authUser = None, search = []\<rparr>"

definition stDup :: app_state where
  "stDup = runOps [NewSession clockA, NewSession clockA] emptyState"

definition emptyStore :: localStorage where
  "emptyStore = \<lparr>ls_items = [], ls_denied = False, ls_quota = 5242880\<rparr>"

definition fullStore :: localStorage where
  "fullStore = \<lparr>ls_items = [], ls_denied = False, ls_quota = 0\<rparr>"

definition corruptStore :: localStorage where
  "corruptStore =
     \<lparr>ls_items = [(MockStorage_key, js ''not json'')], ls_denied = False, ls_quota = 5242880\<rparr>"

section \<open>Auxiliary facts\<close>

lemma find_filter_same: "find P xs = Some x \<Longrightarrow> x \<in> set (filter P xs)"
  by (induction xs) (auto split: if_splits)

lemma find_None_filter: "find P xs = None \<Longrightarrow> filter P xs = []"
  by (induction xs) (auto split: if_splits)

lemma find_Some_filter_hd: "find P xs = Some x \<Longrightarrow> filter P xs \<noteq> []"
  by (induction xs) (auto split: if_splits)

lemma find_map_same_key:
  assumes "\<And>s. P (f s) = P s"
  shows "find P (map f xs) = map_option f (find P xs)"
  using assms by (induction xs) auto

lemma find_Some_holds: "find P xs = Some x \<Longrightarrow> P x"
  by (induction xs) (auto split: if_splits)

lemma activeSession_id:
  "activeSession st = Some a \<Longrightarrow> activeSessionId st = Some (s_id a)"
  by (auto simp: activeSession_def split: option.splits dest: find_Some_holds)

lemma activeSession_sessions_map:
  assumes "activeSession st = Some a" and "\<And>s. s_id (f s) = s_id s"
  shows "activeSession (st\<lparr>sessions := map f (sessions st)\<rparr>) = Some (f a)"
proof -
  from assms(1) obtain i where i: "activeSessionId st = Some i"
      and f: "find (\<lambda>s. s_id s = i) (sessions st) = Some a"
    by (auto simp: activeSession_def split: option.splits)
  have "find (\<lambda>s. s_id s = i) (map f (sessions st)) = map_option f (find (\<lambda>s. s_id s = i) (sessions st))"
    by (rule find_map_same_key) (simp add: assms(2))
  with i f show ?thesis by (simp add: activeSession_def)
qed

lemma activeSession_update:
  assumes "activeSession st = Some a"
  shows "activeSession (updateActiveSessionMessages (Some (s_id a)) upd st) =
           Some (a\<lparr>s_messages := upd (s_messages a)\<rparr>)"
proof -
  have "activeSession (st\<lparr>sessions := map (\<lambda>s. if Some (s_id s) \<noteq> Some (s_id a) then s
            else s\<lparr>s_messages := upd (s_messages s)\<rparr>) (sessions st)\<rparr>) =
        Some ((\<lambda>s. if Some (s_id s) \<noteq> Some (s_id a) then s
            else s\<lparr>s_messages := upd (s_messages s)\<rparr>) a)"
    by (rule activeSession_sessions_map [OF assms]) simp
  then show ?thesis by (simp add: updateActiveSessionMessages_def)
qed

lemma activeSession_isSending [simp]:
  "activeSession (st\<lparr>isSending := b\<rparr>) = activeSession st"
  by (simp add: activeSession_def cong: option.case_cong)

lemma activeSession_question [simp]:
  "activeSession (st\<lparr>question := q\<rparr>) = activeSession st"
  by (simp add: activeSession_def cong: option.case_cong)

lemma update_isSending [simp]:
  "updateActiveSessionMessages aid upd (st\<lparr>isSending := b\<rparr>) =
     (updateActiveSessionMessages aid upd st)\<lparr>isSending := b\<rparr>"
  by (simp add: updateActiveSessionMessages_def)

lemma update_question [simp]:
  "updateActiveSessionMessages aid upd (st\<lparr>question := q\<rparr>) =
     (updateActiveSessionMessages aid upd st)\<lparr>question := q\<rparr>"
  by (simp add: updateActiveSessionMessages_def)

lemma handleSend_begin_proceeds:
  assumes "activeSession st = Some a" and "trim (question st) \<noteq> []"
  shows "handleSend_begin t st =
           ((updateActiveSessionMessages (Some (s_id a)) (\<lambda>d. d @ [userMsg t (question st)])
               (st\<lparr>isSending := True\<rparr>))\<lparr>question := []\<rparr>,
            Some \<lparr>p_activeSessionId = Some (s_id a), p_activeSession = a,
                  p_userMsg = userMsg t (question st)\<rparr>)"
  using assms activeSession_id [OF assms(1)]
  by (simp add: handleSend_begin_def Let_def)

lemma handleSend_begin_active:
  assumes "activeSession st = Some a" and "trim (question st) \<noteq> []"
  shows "activeSession (fst (handleSend_begin t st)) =
           Some (a\<lparr>s_messages := s_messages a @ [userMsg t (question st)]\<rparr>)"
  by (simp add: handleSend_begin_proceeds [OF assms] activeSession_update [OF assms(1)])

lemma handleSend_rejected_active:
  assumes "activeSession st = Some a" and "trim (question st) \<noteq> []"
    and "errMsg tb e = Inr m"
  shows "activeSession (handleSend ta tb (Rejected e) st) =
           Some (a\<lparr>s_messages := s_messages a @ [userMsg ta (question st), m]\<rparr>)"
proof -
  let ?st1 = "fst (handleSend_begin ta st)"
  have b: "activeSession ?st1 = Some (a\<lparr>s_messages := s_messages a @ [userMsg ta (question st)]\<rparr>)"
    by (rule handleSend_begin_active [OF assms(1,2)])
  have "activeSession (updateActiveSessionMessages
           (Some (s_id (a\<lparr>s_messages := s_messages a @ [userMsg ta (question st)]\<rparr>)))
           (\<lambda>d. d @ [m]) ?st1) =
        Some (a\<lparr>s_messages := s_messages a @ [userMsg ta (question st)]\<rparr>
               \<lparr>s_messages := s_messages (a\<lparr>s_messages := s_messages a @ [userMsg ta (question st)]\<rparr>) @ [m]\<rparr>)"
    by (rule activeSession_update [OF b])
  then have "activeSession (updateActiveSessionMessages (Some (s_id a)) (\<lambda>d. d @ [m]) ?st1) =
        Some (a\<lparr>s_messages := s_messages a @ [userMsg ta (question st), m]\<rparr>)"
    by simp
  moreover have "handleSend ta tb (Rejected e) st =
      (updateActiveSessionMessages (Some (s_id a)) (\<lambda>d. d @ [m]) ?st1)\<lparr>isSending := False\<rparr>"
    by (simp add: handleSend_def handleSend_run_def handleSend_settle_def
        handleSend_begin_proceeds [OF assms(1,2)] assms(3))
  ultimately show ?thesis by simp
qed



text \<open>
  A rejection whose reason has a readable \<open>message\<close> property, or none, is shown as
  exactly one assistant message flagged as an error.
\<close>

lemma handleSend_rejected_thrown:
  assumes "activeSession st = Some a" and "trim (question st) \<noteq> []"
  shows "\<exists>m. errMsg tb (Thrown msg) = Inr m \<and> m_role m = Assistant \<and> m_error m \<and>
           activeSession (handleSend ta tb (Rejected (Thrown msg)) st) =
             Some (a\<lparr>s_messages := s_messages a @ [userMsg ta (question st), m]\<rparr>) \<and>
           handleSend_error ta tb (Rejected (Thrown msg)) st = None"
proof -
  obtain m where m: "errMsg tb (Thrown msg) = Inr m" and r: "m_role m = Assistant" "m_error m"
    by (simp add: errMsg_def)
  have "handleSend_error ta tb (Rejected (Thrown msg)) st = None"
    by (simp add: handleSend_error_def handleSend_run_def handleSend_settle_def
        handleSend_begin_proceeds [OF assms] m)
  with m r handleSend_rejected_active [OF assms m] show ?thesis by blast
qed

lemma handleSend_resolved_active:
  assumes "activeSession st = Some a" and "trim (question st) \<noteq> []"
  shows "activeSession (handleSend ta tb (Resolved ans) st) =
           Some (if s_messages a = []
                 then a\<lparr>s_messages := [userMsg ta (question st), assistantMsg tb ans],
                        s_title := truncateTitle (trim (question st)) 42\<rparr>
                 else a\<lparr>s_messages := s_messages a @ [userMsg ta (question st), assistantMsg tb ans]\<rparr>)"
proof -
  let ?st1 = "fst (handleSend_begin ta st)"
  let ?a1 = "a\<lparr>s_messages := s_messages a @ [userMsg ta (question st)]\<rparr>"
  let ?st2 = "updateActiveSessionMessages (Some (s_id a)) (\<lambda>d. d @ [assistantMsg tb ans]) ?st1"
  let ?a2 = "a\<lparr>s_messages := s_messages a @ [userMsg ta (question st), assistantMsg tb ans]\<rparr>"
  have b: "activeSession ?st1 = Some ?a1"
    by (rule handleSend_begin_active [OF assms])
  have "activeSession (updateActiveSessionMessages (Some (s_id ?a1))
           (\<lambda>d. d @ [assistantMsg tb ans]) ?st1) =
        Some (?a1\<lparr>s_messages := s_messages ?a1 @ [assistantMsg tb ans]\<rparr>)"
    by (rule activeSession_update [OF b])
  then have c: "activeSession ?st2 = Some ?a2" by simp
  let ?f = "\<lambda>s. if s_id s = s_id a
                then s\<lparr>s_title := truncateTitle (trim (question st)) 42\<rparr> else s"
  have d: "activeSession (?st2\<lparr>sessions := map ?f (sessions ?st2)\<rparr>) = Some (?f ?a2)"
    by (rule activeSession_sessions_map [OF c]) simp
  have e: "handleSend ta tb (Resolved ans) st =
        (if s_messages a = [] then ?st2\<lparr>sessions := map ?f (sessions ?st2)\<rparr> else ?st2)
          \<lparr>isSending := False\<rparr>"
    by (simp add: handleSend_def handleSend_run_def handleSend_settle_def
        handleSend_begin_proceeds [OF assms] Let_def userMsg_def)
  show ?thesis
    unfolding e using c d by simp
qed

lemmas sample_defs = clockA_def clockB_def mkSession_def mkState_def emptyState_def js_def
  newSession1_def stBtree_def stLong_def stBlank_def stHi_def stTwo_def stDup_def

lemmas string_defs = trim_def isWhiteSpace_def lowerBasicLatin_def lowerUnit_def

lemma rename_list_update:
  assumes "distinct (map s_id xs)" and "find (\<lambda>s. s_id s = k) xs = Some a"
  shows "\<exists>i<length xs. xs ! i = a \<and>
           map (\<lambda>s. if s_id s = s_id a then s\<lparr>s_title := t\<rparr> else s) xs = xs[i := a\<lparr>s_title := t\<rparr>]"
  using assms
proof (induction xs)
  case Nil
  then show ?case by simp
next
  case (Cons x xs)
  show ?case
  proof (cases "s_id x = k")
    case True
    with Cons.prems have xa: "x = a" by simp
    from Cons.prems(1) have "\<forall>s \<in> set xs. s_id s \<noteq> s_id x" by (auto simp: image_iff)
    then have "map (\<lambda>s. if s_id s = s_id a then s\<lparr>s_title := t\<rparr> else s) xs = xs"
      using xa by (simp add: map_idI)
    with xa have "(x # xs) ! 0 = a \<and>
        map (\<lambda>s. if s_id s = s_id a then s\<lparr>s_title := t\<rparr> else s) (x # xs) =
          (x # xs)[0 := a\<lparr>s_title := t\<rparr>]"
      by simp
    then show ?thesis by blast
  next
    case False
    with Cons.prems have f: "find (\<lambda>s. s_id s = k) xs = Some a" by simp
    from Cons.prems(1) have d: "distinct (map s_id xs)" by simp
    from Cons.IH [OF d f] obtain i where i: "i < length xs" "xs ! i = a"
      "map (\<lambda>s. if s_id s = s_id a then s\<lparr>s_title := t\<rparr> else s) xs = xs[i := a\<lparr>s_title := t\<rparr>]"
      by blast
    from f have "s_id a = k" by (rule find_Some_holds)
    with False have "s_id x \<noteq> s_id a" by simp
    with i have "Suc i < length (x # xs) \<and> (x # xs) ! Suc i = a \<and>
        map (\<lambda>s. if s_id s = s_id a then s\<lparr>s_title := t\<rparr> else s) (x # xs) =
          (x # xs)[Suc i := a\<lparr>s_title := t\<rparr>]"
      by simp
    then show ?thesis by blast
  qed
qed

lemma includesStr_sublist: "includesStr t q \<longleftrightarrow> sublist q t"
  by (induction t) (auto simp: sublist_Cons_right)

lemma lowerBasicLatin_Nil_iff: "lowerBasicLatin s = [] \<longleftrightarrow> s = []"
  by (simp add: lowerBasicLatin_def)

lemma activeSession_stBtree: "activeSession stBtree = Some newSession1"
  by (simp add: activeSession_def sample_defs)

lemma trim_question_stBtree: "trim (question stBtree) = js ''What is a B-tree?''"
  by (simp add: sample_defs string_defs)

subsection \<open>\<open>JSON.parse\<close> after \<open>JSON.stringify\<close>\<close>

lemma unhexDigit_hexDigit: "d < 16 \<Longrightarrow> unhexDigit (hexDigit d) = Some d"
proof -
  assume "d < 16"
  then have "d \<in> {0, 1, 2, 3, 4, 5, 6, 7, 8, 9, 10, 11, 12, 13, 14, 15}"
    by (simp; arith)
  then show ?thesis
    by (elim insertE emptyE) (simp_all add: unhexDigit_def hexDigit_def)
qed

lemma hex4_value:
  assumes "n < 65536"
  shows "((n div 4096 mod 16 * 16 + n div 256 mod 16) * 16 + n div 16 mod 16) * 16 + n mod 16 = (n::nat)"
proof -
  have d2: "n div 256 = n div 16 div 16" and d3: "n div 4096 = n div 16 div 16 div 16"
    by (simp_all add: div_mult2_eq)
  from assms have "n div 16 div 16 div 16 < 16" by simp
  then have m3: "n div 16 div 16 div 16 mod 16 = n div 16 div 16 div 16" by simp
  have e1: "n div 16 * 16 + n mod 16 = n" by simp
  have e2: "n div 16 div 16 * 16 + n div 16 mod 16 = n div 16" by simp
  have e3: "n div 16 div 16 div 16 * 16 + n div 16 div 16 mod 16 = n div 16 div 16" by simp
  show ?thesis
    unfolding d2 d3 m3 e3 e2 e1 ..
qed

lemma unat_jschar_bound: "unat (c::jschar) < 65536"
  using unsigned_less [of c, where 'a = nat] by simp

lemma unhex4_hex4:
  "hex4 c = [h1, h2, h3, h4] \<Longrightarrow> unhex4 h1 h2 h3 h4 = Some c"
proof -
  assume h: "hex4 c = [h1, h2, h3, h4]"
  let ?n = "unat c"
  from h have hs: "h1 = hexDigit (?n div 4096 mod 16)" "h2 = hexDigit (?n div 256 mod 16)"
    "h3 = hexDigit (?n div 16 mod 16)" "h4 = hexDigit (?n mod 16)"
    by (simp_all add: hex4_def)
  have "of_nat (((?n div 4096 mod 16 * 16 + ?n div 256 mod 16) * 16 + ?n div 16 mod 16) * 16 +
      ?n mod 16) = (of_nat ?n :: jschar)"
    by (simp only: hex4_value [OF unat_jschar_bound])
  then show ?thesis
    by (simp add: unhex4_def hs unhexDigit_hexDigit)
qed

lemma lexStr_escapeUnit:
  "lexStr acc (escapeUnit c @ tail) = lexStr (c # acc) tail"
proof -
  consider "c = 0x08" | "c = 0x09" | "c = 0x0A" | "c = 0x0C" | "c = 0x0D" | "c = 0x22" | "c = 0x5C"
    | "c \<notin> {0x08, 0x09, 0x0A, 0x0C, 0x0D, 0x22, 0x5C}" "c < 0x20 \<or> isSurrogate c"
    | "c \<notin> {0x08, 0x09, 0x0A, 0x0C, 0x0D, 0x22, 0x5C}" "\<not> (c < 0x20 \<or> isSurrogate c)"
    by blast
  then show ?thesis
  proof cases
    case 1
    then show ?thesis by (simp add: escapeUnit_def unescape_def lexStr.simps)
  next
    case 2
    then show ?thesis by (simp add: escapeUnit_def unescape_def lexStr.simps)
  next
    case 3
    then show ?thesis by (simp add: escapeUnit_def unescape_def lexStr.simps)
  next
    case 4
    then show ?thesis by (simp add: escapeUnit_def unescape_def lexStr.simps)
  next
    case 5
    then show ?thesis by (simp add: escapeUnit_def unescape_def lexStr.simps)
  next
    case 6
    then show ?thesis by (simp add: escapeUnit_def unescape_def lexStr.simps)
  next
    case 7
    then show ?thesis by (simp add: escapeUnit_def unescape_def lexStr.simps)
  next
    case 8
    obtain h1 h2 h3 h4 where h: "hex4 c = [h1, h2, h3, h4]"
      by (simp add: hex4_def)
    from 8 have "escapeUnit c = [0x5C, 0x75, h1, h2, h3, h4]"
      by (simp add: escapeUnit_def h)
    then show ?thesis
      by (simp add: unhex4_hex4 [OF h] lexStr.simps)
  next
    case 9
    then have "escapeUnit c = [c]" by (simp add: escapeUnit_def)
    with 9 show ?thesis by (simp add: lexStr.simps)
  qed
qed


lemma lexStr_pair:
  assumes "isPair c d"
  shows "lexStr acc (c # d # tail) = lexStr (d # c # acc) tail"
proof -
  from assms have c: "0xD800 \<le> c" and d: "0xDC00 \<le> d" by (simp_all add: isPair_def)
  from c have "c \<noteq> 0x22" "c \<noteq> 0x5C" "\<not> c < 0x20" by (auto simp: word_le_def word_less_def)
  moreover from d have "d \<noteq> 0x22" "d \<noteq> 0x5C" "\<not> d < 0x20" by (auto simp: word_le_def word_less_def)
  ultimately show ?thesis by (simp add: lexStr.simps)
qed

lemma lexStr_quoteChars:
  "lexStr acc (quoteChars s @ 0x22 # rest) = cons (TStr (rev acc @ s)) (lex rest)"
proof (induction s arbitrary: acc rule: quoteChars.induct)
  case 1
  show ?case by (simp add: lexStr.simps)
next
  case (2 c)
  have "lexStr acc (quoteChars [c] @ 0x22 # rest) = lexStr (c # acc) (0x22 # rest)"
    by (simp add: lexStr_escapeUnit)
  then show ?case by (simp add: lexStr.simps)
next
  case (3 c d cs)
  show ?case
  proof (cases "isPair c d")
    case True
    then have "lexStr acc (quoteChars (c # d # cs) @ 0x22 # rest) =
        lexStr (d # c # acc) (quoteChars cs @ 0x22 # rest)"
      by (simp add: lexStr_pair)
    also have "\<dots> = cons (TStr (rev (d # c # acc) @ cs)) (lex rest)"
      using True by (rule 3(1))
    finally show ?thesis by simp
  next
    case False
    then have "lexStr acc (quoteChars (c # d # cs) @ 0x22 # rest) =
        lexStr (c # acc) (quoteChars (d # cs) @ 0x22 # rest)"
      by (simp add: lexStr_escapeUnit)
    also have "\<dots> = cons (TStr (rev (c # acc) @ d # cs)) (lex rest)"
      using False by (rule 3(2))
    finally show ?thesis by simp
  qed
qed

lemma lex_quoteJSONString:
  "lex (quoteJSONString s @ rest) = cons (TStr s) (lex rest)"
proof -
  have "lex (quoteJSONString s @ rest) = lexStr [] (quoteChars s @ 0x22 # rest)"
    by (simp add: quoteJSONString_def lex.simps isJsonSpace_def)
  then show ?thesis by (simp add: lexStr_quoteChars)
qed

lemma appendToks_simps [simp]:
  "appendToks [] r = r"
  "appendToks (t # ts) r = cons t (appendToks ts r)"
  "appendToks (ts @ us) r = appendToks ts (appendToks us r)"
  by (cases r; simp add: appendToks_def cons_def)+

lemma okAfter_simps [simp]:
  "okAfter []"
  "okAfter (0x2C # r)"
  "okAfter (0x5D # r)"
  "okAfter (0x7D # r)"
  by (simp_all add: okAfter_def isNumChar_def isDigit_def)

lemma validNumber_start:
  assumes "validNumber l"
  obtains c l' where "l = c # l'" and "c = 0x2D \<or> isDigit c"
proof (cases l)
  case Nil
  with assms show ?thesis by (simp add: validNumber_def)
next
  case (Cons c l')
  have "0x31 \<le> c \<Longrightarrow> 0x30 \<le> c"
    by (rule order_trans [of _ "0x31"]) simp_all
  with Cons assms have "c = 0x2D \<or> isDigit c"
    by (auto simp: validNumber_def validInt_def isDigit_def split: if_splits)
  with Cons show ?thesis by (rule that)
qed

lemma lex_number:
  assumes "validNumber l" and "list_all isNumChar l" and "okAfter rest"
  shows "lex (l @ rest) = cons (TNum l) (lex rest)"
proof -
  from assms(1) obtain c l' where l: "l = c # l'" and c: "c = 0x2D \<or> isDigit c"
    by (rule validNumber_start)
  from assms(2) l have all: "\<forall>x \<in> set l'. isNumChar x"
    by (simp add: list_all_iff)
  from assms(3) have nil: "takeWhile isNumChar rest = []" and same: "dropWhile isNumChar rest = rest"
    by (cases rest; simp add: okAfter_def)+
  from all nil have tw: "takeWhile isNumChar (l' @ rest) = l'"
    by (simp add: takeWhile_append2)
  from all same have dw: "dropWhile isNumChar (l' @ rest) = rest"
    by (simp add: dropWhile_append2)
  from c have nsp: "\<not> isJsonSpace c" "c \<noteq> 0x7B" "c \<noteq> 0x7D" "c \<noteq> 0x5B" "c \<noteq> 0x5D"
      "c \<noteq> 0x3A" "c \<noteq> 0x2C" "c \<noteq> 0x22"
    by (auto simp: isJsonSpace_def isDigit_def)
  from c have dc: "isDigit c \<or> c = 0x2D" by blast
  from dc nsp assms(1) show ?thesis
    unfolding l by (simp add: lex.simps tw dw)
qed

lemma lex_null: "lex (js ''null'' @ rest) = cons TNull (lex rest)"
  by (simp add: js_def lex.simps isJsonSpace_def isDigit_def)

lemma lex_true: "lex (js ''true'' @ rest) = cons TTrue (lex rest)"
  by (simp add: js_def lex.simps isJsonSpace_def isDigit_def)

lemma lex_false: "lex (js ''false'' @ rest) = cons TFalse (lex rest)"
  by (simp add: js_def lex.simps isJsonSpace_def isDigit_def)

lemma lex_punct:
  "lex (0x5B # r) = cons TLBracket (lex r)"
  "lex (0x5D # r) = cons TRBracket (lex r)"
  "lex (0x7B # r) = cons TLBrace (lex r)"
  "lex (0x7D # r) = cons TRBrace (lex r)"
  "lex (0x3A # r) = cons TColon (lex r)"
  "lex (0x2C # r) = cons TComma (lex r)"
  by (simp_all add: lex.simps isJsonSpace_def)

lemma okAfter_elems:
  "okAfter (concat (map (\<lambda>y. 0x2C # f y) ys) @ 0x5D # rest)"
  "okAfter (concat (map (\<lambda>y. 0x2C # f y) ys) @ 0x7D # rest)"
  by (cases ys; simp)+

lemma lex_elems:
  assumes "\<And>y r. y \<in> set ys \<Longrightarrow> okAfter r \<Longrightarrow> lex (stringify y @ r) = appendToks (toks y) (lex r)"
  shows "lex (concat (map (\<lambda>y. 0x2C # stringify y) ys) @ 0x5D # rest) =
           appendToks (concat (map (\<lambda>y. TComma # toks y) ys) @ [TRBracket]) (lex rest)"
  using assms
proof (induction ys)
  case Nil
  show ?case by (simp add: lex_punct)
next
  case (Cons y ys)
  have "lex (stringify y @ concat (map (\<lambda>y. 0x2C # stringify y) ys) @ 0x5D # rest) =
      appendToks (toks y) (lex (concat (map (\<lambda>y. 0x2C # stringify y) ys) @ 0x5D # rest))"
    by (rule Cons.prems) (simp_all add: okAfter_elems)
  moreover have "lex (concat (map (\<lambda>y. 0x2C # stringify y) ys) @ 0x5D # rest) =
      appendToks (concat (map (\<lambda>y. TComma # toks y) ys) @ [TRBracket]) (lex rest)"
    by (rule Cons.IH) (simp add: Cons.prems)
  ultimately show ?case by (simp add: lex_punct)
qed

lemma lex_members:
  assumes "\<And>p r. p \<in> set ps \<Longrightarrow> okAfter r \<Longrightarrow>
      lex (stringify (snd p) @ r) = appendToks (toks (snd p)) (lex r)"
  shows "lex (concat (map (\<lambda>p. 0x2C # quoteJSONString (fst p) @ 0x3A # stringify (snd p)) ps) @
              0x7D # rest) =
           appendToks (concat (map (\<lambda>p. TComma # TStr (fst p) # TColon # toks (snd p)) ps) @
              [TRBrace]) (lex rest)"
  using assms
proof (induction ps)
  case Nil
  show ?case by (simp add: lex_punct)
next
  case (Cons p ps)
  let ?tail = "concat (map (\<lambda>p. 0x2C # quoteJSONString (fst p) @ 0x3A # stringify (snd p)) ps) @
      0x7D # rest"
  have "lex (stringify (snd p) @ ?tail) = appendToks (toks (snd p)) (lex ?tail)"
    by (rule Cons.prems) (simp_all add: okAfter_elems)
  moreover have "lex ?tail =
      appendToks (concat (map (\<lambda>p. TComma # TStr (fst p) # TColon # toks (snd p)) ps) @
        [TRBrace]) (lex rest)"
    by (rule Cons.IH) (simp add: Cons.prems)
  ultimately show ?case by (simp add: lex_punct lex_quoteJSONString)
qed

lemma lex_stringify:
  "jsonSafe v \<Longrightarrow> okAfter rest \<Longrightarrow> lex (stringify v @ rest) = appendToks (toks v) (lex rest)"
proof (induction v arbitrary: rest)
  case JNull
  show ?case by (simp add: lex_null)
next
  case (JBool b)
  show ?case by (simp add: lex_true lex_false)
next
  case (JNum l)
  then show ?case by (simp add: lex_number)
next
  case (JStr s)
  show ?case by (simp add: lex_quoteJSONString)
next
  case (JArr xs)
  show ?case
  proof (cases xs)
    case Nil
    then show ?thesis by (simp add: lex_punct)
  next
    case (Cons x ys)
    have ih: "\<And>y r. y \<in> set xs \<Longrightarrow> okAfter r \<Longrightarrow>
        lex (stringify y @ r) = appendToks (toks y) (lex r)"
      using JArr.IH JArr.prems(1) by (simp add: list_all_iff)
    let ?tail = "concat (map (\<lambda>y. 0x2C # stringify y) ys) @ 0x5D # rest"
    have "lex (stringify x @ ?tail) = appendToks (toks x) (lex ?tail)"
      by (rule ih) (simp_all add: Cons okAfter_elems)
    moreover have "lex ?tail =
        appendToks (concat (map (\<lambda>y. TComma # toks y) ys) @ [TRBracket]) (lex rest)"
      by (rule lex_elems) (simp add: ih Cons)
    ultimately show ?thesis by (simp add: Cons lex_punct)
  qed
next
  case (JObj kvs)
  show ?case
  proof (cases kvs)
    case Nil
    then show ?thesis by (simp add: lex_punct)
  next
    case (Cons kv ps)
    have ih: "\<And>p r. p \<in> set kvs \<Longrightarrow> okAfter r \<Longrightarrow>
        lex (stringify (snd p) @ r) = appendToks (toks (snd p)) (lex r)"
    proof -
      fix p r
      assume p: "p \<in> set kvs" and r: "okAfter r"
      from p JObj.prems(1) have "jsonSafe (snd p)" by (simp add: list_all_iff)
      moreover from p have "snd p \<in> Basic_BNFs.snds p" by (simp add: snds.simps)
      ultimately show "lex (stringify (snd p) @ r) = appendToks (toks (snd p)) (lex r)"
        using JObj.IH p r by blast
    qed
    let ?tail = "concat (map (\<lambda>p. 0x2C # quoteJSONString (fst p) @ 0x3A # stringify (snd p)) ps) @
      0x7D # rest"
    have "lex (stringify (snd kv) @ ?tail) = appendToks (toks (snd kv)) (lex ?tail)"
      by (rule ih) (simp_all add: Cons okAfter_elems)
    moreover have "lex ?tail =
        appendToks (concat (map (\<lambda>p. TComma # TStr (fst p) # TColon # toks (snd p)) ps) @
          [TRBrace]) (lex rest)"
      by (rule lex_members) (simp add: ih Cons)
    ultimately show ?thesis by (simp add: Cons lex_punct lex_quoteJSONString)
  qed
qed

lemma toks_start:
  obtains t ts where "toks v = t # ts" and "t \<noteq> TRBracket" and "t \<noteq> TRBrace"
proof (cases v)
  case (JArr xs)
  then show ?thesis by (cases xs) (auto intro: that)
next
  case (JObj kvs)
  then show ?thesis by (cases kvs) (auto intro: that)
next
  case (JBool b)
  then show ?thesis by (cases b) (auto intro: that)
qed (auto intro: that)

lemma objPut_fresh: "k \<notin> fst ` set acc \<Longrightarrow> objPut k v acc = acc @ [(k, v)]"
  by (induction acc) auto

lemma parseElems_toks:
  assumes "\<And>y n r. y \<in> set ys \<Longrightarrow> length (toks y) \<le> n \<Longrightarrow>
      parseValue n (toks y @ r) = Some (y, r)"
    and "length (concat (map (\<lambda>y. TComma # toks y) ys)) < n"
  shows "parseElems n acc (concat (map (\<lambda>y. TComma # toks y) ys) @ TRBracket # rest) =
           Some (rev acc @ ys, rest)"
  using assms
proof (induction ys arbitrary: n acc)
  case Nil
  then obtain m where "n = Suc m" by (cases n) auto
  then show ?case by simp
next
  case (Cons y ys)
  from Cons.prems(2) obtain m where n: "n = Suc m" by (cases n) auto
  obtain t ts where t: "toks y = t # ts" by (rule toks_start)
  from Cons.prems(2) n t have m1: "length (toks y) \<le> m"
    and m2: "length (concat (map (\<lambda>y. TComma # toks y) ys)) < m"
    by simp_all
  have "parseValue m (toks y @ concat (map (\<lambda>y. TComma # toks y) ys) @ TRBracket # rest) =
      Some (y, concat (map (\<lambda>y. TComma # toks y) ys) @ TRBracket # rest)"
    by (rule Cons.prems(1)) (simp_all add: m1)
  moreover have "parseElems m (y # acc) (concat (map (\<lambda>y. TComma # toks y) ys) @ TRBracket # rest) =
      Some (rev (y # acc) @ ys, rest)"
    by (rule Cons.IH) (simp_all add: Cons.prems(1) m2)
  ultimately show ?case by (simp add: n)
qed

lemma parseMembers_toks:
  assumes "\<And>p n r. p \<in> set ps \<Longrightarrow> length (toks (snd p)) \<le> n \<Longrightarrow>
      parseValue n (toks (snd p) @ r) = Some (snd p, r)"
    and "length (concat (map (\<lambda>p. TComma # TStr (fst p) # TColon # toks (snd p)) ps)) < n"
    and "distinct (map fst (acc @ ps))"
  shows "parseMembers n acc
           (concat (map (\<lambda>p. TComma # TStr (fst p) # TColon # toks (snd p)) ps) @ TRBrace # rest) =
           Some (acc @ ps, rest)"
  using assms
proof (induction ps arbitrary: n acc)
  case Nil
  then obtain m where "n = Suc m" by (cases n) auto
  then show ?case by simp
next
  case (Cons p ps)
  let ?M = "concat (map (\<lambda>p. TComma # TStr (fst p) # TColon # toks (snd p)) ps)"
  from Cons.prems(2) obtain m where n: "n = Suc m" by (cases n) auto
  from Cons.prems(2) n have m1: "length (toks (snd p)) \<le> m" and m2: "length ?M < m"
    by simp_all
  from Cons.prems(3) have fresh: "fst p \<notin> fst ` set acc" by auto
  have put: "objPut (fst p) (snd p) acc = acc @ [p]"
    using objPut_fresh [OF fresh, of "snd p"] by simp
  have "parseValue m (toks (snd p) @ ?M @ TRBrace # rest) = Some (snd p, ?M @ TRBrace # rest)"
    by (rule Cons.prems(1)) (simp_all add: m1)
  moreover have "parseMembers m (acc @ [p]) (?M @ TRBrace # rest) = Some ((acc @ [p]) @ ps, rest)"
    by (rule Cons.IH) (use Cons.prems(1,3) m2 in simp_all)
  ultimately show ?case by (simp add: n put)
qed

lemma parseValue_toks:
  "jsonSafe v \<Longrightarrow> length (toks v) \<le> n \<Longrightarrow> parseValue n (toks v @ rest) = Some (v, rest)"
proof (induction v arbitrary: n rest)
  case JNull
  then show ?case by (cases n) simp_all
next
  case (JBool b)
  then show ?case by (cases n; cases b) simp_all
next
  case (JNum l)
  then show ?case by (cases n) simp_all
next
  case (JStr s)
  then show ?case by (cases n) simp_all
next
  case (JArr xs)
  from JArr.prems(2) obtain m where n: "n = Suc m" by (cases n; cases xs; simp)
  show ?case
  proof (cases xs)
    case Nil
    then show ?thesis by (simp add: n)
  next
    case (Cons x ys)
    let ?E = "concat (map (\<lambda>y. TComma # toks y) ys)"
    have ih: "\<And>y k r. y \<in> set xs \<Longrightarrow> length (toks y) \<le> k \<Longrightarrow>
        parseValue k (toks y @ r) = Some (y, r)"
      using JArr.IH JArr.prems(1) by (simp add: list_all_iff)
    obtain t ts where t: "toks x = t # ts" "t \<noteq> TRBracket" by (rule toks_start)
    from JArr.prems(2) n Cons have m1: "length (toks x) \<le> m" and m2: "length ?E < m"
      by simp_all
    have a: "parseValue m (toks x @ ?E @ TRBracket # rest) = Some (x, ?E @ TRBracket # rest)"
      by (rule ih) (simp_all add: Cons m1)
    have b: "parseElems m [x] (?E @ TRBracket # rest) = Some (rev [x] @ ys, rest)"
      by (rule parseElems_toks) (simp_all add: ih Cons m2)
    have "parseValue (Suc m) (TLBracket # (t # ts) @ ?E @ TRBracket # rest) =
        (case parseValue m ((t # ts) @ ?E @ TRBracket # rest) of
           None \<Rightarrow> None
         | Some (v, r) \<Rightarrow>
             (case parseElems m [v] r of None \<Rightarrow> None | Some (vs, r') \<Rightarrow> Some (JArr vs, r')))"
      using t(2) by (cases t) simp_all
    with a b show ?thesis by (simp add: n Cons t(1))
  qed
next
  case (JObj kvs)
  from JObj.prems(2) obtain m where n: "n = Suc m" by (cases n; cases kvs; simp)
  show ?case
  proof (cases kvs)
    case Nil
    then show ?thesis by (simp add: n)
  next
    case (Cons kv ps)
    let ?M = "concat (map (\<lambda>p. TComma # TStr (fst p) # TColon # toks (snd p)) ps)"
    have ih: "\<And>p k r. p \<in> set kvs \<Longrightarrow> length (toks (snd p)) \<le> k \<Longrightarrow>
        parseValue k (toks (snd p) @ r) = Some (snd p, r)"
    proof -
      fix p k r
      assume p: "p \<in> set kvs" and k: "length (toks (snd p)) \<le> k"
      from p JObj.prems(1) have "jsonSafe (snd p)" by (simp add: list_all_iff)
      moreover from p have "snd p \<in> Basic_BNFs.snds p" by (simp add: snds.simps)
      ultimately show "parseValue k (toks (snd p) @ r) = Some (snd p, r)"
        using JObj.IH p k by blast
    qed
    from JObj.prems(2) n Cons have m1: "length (toks (snd kv)) \<le> m" and m2: "length ?M < m"
      by simp_all
    from JObj.prems(1) Cons have d: "distinct (map fst ([kv] @ ps))" by simp
    have a: "parseValue m (toks (snd kv) @ ?M @ TRBrace # rest) = Some (snd kv, ?M @ TRBrace # rest)"
      by (rule ih) (simp_all add: Cons m1)
    have b: "parseMembers m [kv] (?M @ TRBrace # rest) = Some ([kv] @ ps, rest)"
      by (rule parseMembers_toks [OF _ m2 d]) (simp add: ih Cons)
    from a b show ?thesis by (simp add: n Cons)
  qed
qed

lemma JSON_parse_stringify:
  assumes "jsonSafe v"
  shows "JSON_parse (stringify v) = Inr v"
proof -
  have "lex (stringify v @ []) = appendToks (toks v) (lex [])"
    by (rule lex_stringify [OF assms]) simp
  then have l: "lex (stringify v) = Some (toks v)"
    by (simp add: lex.simps appendToks_def)
  have "parseValue (length (toks v)) (toks v @ []) = Some (v, [])"
    by (rule parseValue_toks [OF assms]) simp
  with l show ?thesis by (simp add: JSON_parse_def)
qed

subsection \<open>The depth bound of the parser\<close>

text \<open>
  Every step of \<open>parseValue\<close>, \<open>parseElems\<close> and \<open>parseMembers\<close> consumes a token
  before it recurses, so a bound of the number of tokens never cuts a parse short: any
  larger bound gives the same result.
\<close>

lemma parse_rest_shorter:
  "(parseValue n ts = Some (v, r) \<longrightarrow> length r < length ts) \<and>
   (parseElems n acc ts = Some (vs, r) \<longrightarrow> length r < length ts) \<and>
   (parseMembers n macc ts = Some (kvs, r) \<longrightarrow> length r < length ts)"
proof (induction n arbitrary: ts v r acc vs macc kvs)
  case 0
  show ?case by simp
next
  case (Suc n)
  have pv: "\<And>ts v r. parseValue n ts = Some (v, r) \<Longrightarrow> length r < length ts"
    and pe: "\<And>ts acc vs r. parseElems n acc ts = Some (vs, r) \<Longrightarrow> length r < length ts"
    and pm: "\<And>ts macc kvs r. parseMembers n macc ts = Some (kvs, r) \<Longrightarrow> length r < length ts"
    using Suc.IH by blast+
  have 1: "parseValue (Suc n) ts = Some (v, r) \<longrightarrow> length r < length ts"
  proof (cases ts)
    case Nil
    then show ?thesis by simp
  next
    case (Cons t ts')
    show ?thesis
    proof (cases t)
      case TLBracket
      show ?thesis
      proof (cases "\<exists>r'. ts' = TRBracket # r'")
        case True
        with Cons TLBracket show ?thesis by auto
      next
        case False
        then have e: "parseValue (Suc n) ts =
            (case parseValue n ts' of
               None \<Rightarrow> None
             | Some (v, r) \<Rightarrow>
                 (case parseElems n [v] r of None \<Rightarrow> None | Some (vs, r') \<Rightarrow> Some (JArr vs, r')))"
          using Cons TLBracket by (auto split: list.splits token.splits)
        show ?thesis
          unfolding e using Cons
          by (auto split: option.splits prod.splits dest!: pv pe)
      qed
    next
      case TLBrace
      show ?thesis
        using Cons TLBrace
        by (auto split: option.splits prod.splits list.splits token.splits dest!: pv pm)
    qed (use Cons in auto)
  qed
  have 2: "parseElems (Suc n) acc ts = Some (vs, r) \<longrightarrow> length r < length ts"
  proof (cases ts)
    case Nil
    then show ?thesis by simp
  next
    case (Cons t ts')
    then show ?thesis
      by (cases t) (auto split: option.splits prod.splits dest!: pv pe)
  qed
  have 3: "parseMembers (Suc n) macc ts = Some (kvs, r) \<longrightarrow> length r < length ts"
  proof (cases ts)
    case Nil
    then show ?thesis by simp
  next
    case (Cons t ts')
    then show ?thesis
      by (cases t)
         (auto split: option.splits prod.splits list.splits token.splits dest!: pv pm)
  qed
  from 1 2 3 show ?case by blast
qed


lemma parse_fuel_step:
  "length ts \<le> n \<Longrightarrow>
     parseValue (Suc n) ts = parseValue n ts \<and>
     parseElems (Suc n) acc ts = parseElems n acc ts \<and>
     parseMembers (Suc n) macc ts = parseMembers n macc ts"
proof (induction n arbitrary: ts acc macc)
  case 0
  then show ?case by simp
next
  case (Suc n)
  show ?case
  proof (cases ts)
    case Nil
    then show ?thesis by simp
  next
    case (Cons t ts')
    with Suc.prems have len: "length ts' \<le> n" by simp
    have pv: "\<And>us. length us \<le> n \<Longrightarrow> parseValue (Suc n) us = parseValue n us"
      and pe: "\<And>us a. length us \<le> n \<Longrightarrow> parseElems (Suc n) a us = parseElems n a us"
      and pm: "\<And>us a. length us \<le> n \<Longrightarrow> parseMembers (Suc n) a us = parseMembers n a us"
      using Suc.IH by blast+
    have sh: "\<And>us v r. length us \<le> n \<Longrightarrow> parseValue n us = Some (v, r) \<Longrightarrow> length r \<le> n"
      using parse_rest_shorter [where acc = "[]" and macc = "[]"] by fastforce
    have e1: "\<And>us a. length us \<le> n \<Longrightarrow>
        (case parseValue (Suc n) us of None \<Rightarrow> None | Some (v, r) \<Rightarrow> parseElems (Suc n) (a v) r) =
        (case parseValue n us of None \<Rightarrow> None | Some (v, r) \<Rightarrow> parseElems n (a v) r)"
      by (auto simp: pv split: option.splits dest: sh intro: pe)
    have e2: "\<And>us a. length us \<le> n \<Longrightarrow>
        (case parseValue (Suc n) us of None \<Rightarrow> None
         | Some (v, r) \<Rightarrow> parseMembers (Suc n) (a v) r) =
        (case parseValue n us of None \<Rightarrow> None | Some (v, r) \<Rightarrow> parseMembers n (a v) r)"
      by (auto simp: pv split: option.splits dest: sh intro: pm)
    have e3: "\<And>us. length us \<le> n \<Longrightarrow>
        (case parseValue (Suc n) us of None \<Rightarrow> None
         | Some (v, r) \<Rightarrow>
             (case parseElems (Suc n) [v] r of None \<Rightarrow> None | Some (vs, r') \<Rightarrow> Some (JArr vs, r'))) =
        (case parseValue n us of None \<Rightarrow> None
         | Some (v, r) \<Rightarrow>
             (case parseElems n [v] r of None \<Rightarrow> None | Some (vs, r') \<Rightarrow> Some (JArr vs, r')))"
      by (auto simp: pv split: option.splits dest: sh simp: pe)
    have e4: "\<And>us k. length us \<le> n \<Longrightarrow>
        (case parseValue (Suc n) us of None \<Rightarrow> None
         | Some (v, r) \<Rightarrow>
             (case parseMembers (Suc n) [(k, v)] r of None \<Rightarrow> None
              | Some (kvs, r') \<Rightarrow> Some (JObj kvs, r'))) =
        (case parseValue n us of None \<Rightarrow> None
         | Some (v, r) \<Rightarrow>
             (case parseMembers n [(k, v)] r of None \<Rightarrow> None
              | Some (kvs, r') \<Rightarrow> Some (JObj kvs, r')))"
      by (auto simp: pv split: option.splits dest: sh simp: pm)
    have 1: "parseValue (Suc (Suc n)) (t # ts') = parseValue (Suc n) (t # ts')"
    proof (cases t)
      case TLBracket
      show ?thesis
        unfolding TLBracket by (simp only: parseValue.simps token.case e3 [OF len])
    next
      case TLBrace
      show ?thesis
      proof (cases ts')
        case Nil
        with TLBrace show ?thesis by simp
      next
        case c1: (Cons u us)
        show ?thesis
        proof (cases us)
          case Nil
          with TLBrace c1 show ?thesis by (simp split: token.splits)
        next
          case c2: (Cons w ws)
          with c1 len have "length ws \<le> n" by simp
          from e4 [OF this] TLBrace c1 c2 show ?thesis
            by (simp split: token.splits)
        qed
      qed
    qed simp_all
    have 2: "parseElems (Suc (Suc n)) acc (t # ts') = parseElems (Suc n) acc (t # ts')"
      using e1 [OF len, of "\<lambda>v. v # acc"] by (cases t) simp_all
    have 3: "parseMembers (Suc (Suc n)) macc (t # ts') = parseMembers (Suc n) macc (t # ts')"
    proof (cases t)
      case TComma
      show ?thesis
      proof (cases ts')
        case Nil
        with TComma show ?thesis by simp
      next
        case c1: (Cons u us)
        show ?thesis
        proof (cases us)
          case Nil
          with TComma c1 show ?thesis by (simp split: token.splits)
        next
          case c2: (Cons w ws)
          with c1 len have "length ws \<le> n" by simp
          from e2 [OF this, of "\<lambda>v. objPut (case u of TStr k \<Rightarrow> k | _ \<Rightarrow> []) v macc"]
            TComma c1 c2 show ?thesis
            by (simp split: token.splits)
        qed
      qed
    qed simp_all
    from 1 2 3 Cons show ?thesis by simp
  qed
qed

lemma parseValue_fuel:
  "length ts \<le> n \<Longrightarrow> parseValue n ts = parseValue (length ts) ts"
proof (induction n)
  case 0
  then show ?case by simp
next
  case (Suc n)
  show ?case
  proof (cases "length ts = Suc n")
    case True
    then show ?thesis by simp
  next
    case False
    with Suc.prems have l: "length ts \<le> n" by simp
    from parse_fuel_step [OF l, of "[]" "[]"] Suc.IH [OF l] show ?thesis by simp
  qed
qed

subsection \<open>The store and the session objects\<close>

lemma map_of_objPut: "map_of (objPut k v items) k = Some v"
  by (induction items) auto

lemma jsonSafe_jsMessage: "jsonSafe (jsMessage m)"
  by (simp add: jsMessage_def js_def)

lemma jsonSafe_jsSession: "jsonSafe (jsSession s)"
  by (simp add: jsSession_def js_def list_all_iff jsonSafe_jsMessage)

lemma jsonSafe_sessions: "jsonSafe (JArr (map jsSession S))"
  by (simp add: list_all_iff jsonSafe_jsSession)

lemma stringify_JArr_nonempty: "stringify (JArr xs) \<noteq> []"
  by (cases xs) simp_all

lemma loadSessions_after_setItem:
  assumes "setItem ls MockStorage_key (stringify (JArr xs)) = Inr ls'" and "jsonSafe (JArr xs)"
  shows "loadSessions ls' = Inr xs"
proof -
  from assms(1) have nd: "\<not> ls_denied ls'"
    and items: "ls_items ls' = objPut MockStorage_key (stringify (JArr xs)) (ls_items ls)"
    by (auto simp: setItem_def split: if_splits)
  from nd items have "getItem ls' MockStorage_key = Inr (Some (stringify (JArr xs)))"
    by (simp add: getItem_def map_of_objPut)
  moreover have "JSON_parse (stringify (JArr xs)) = Inr (JArr xs)"
    by (rule JSON_parse_stringify [OF assms(2)])
  ultimately show ?thesis
    by (simp add: loadSessions_def loadSessions_try_def stringify_JArr_nonempty)
qed

text \<open>Distinct records are distinct objects, so equal objects mean equal records.\<close>

lemma inj_jsMessage: "jsMessage m = jsMessage m' \<Longrightarrow> m = m'"
  by (cases m; cases m'; cases "m_role m"; cases "m_role m'")
     (auto simp: jsMessage_def js_def split: if_splits)

lemma inj_jsSession: "jsSession s = jsSession s' \<Longrightarrow> s = s'"
proof -
  assume e: "jsSession s = jsSession s'"
  then have "map jsMessage (s_messages s) = map jsMessage (s_messages s')"
    by (simp add: jsSession_def)
  moreover have "inj jsMessage" by (rule injI) (rule inj_jsMessage)
  ultimately have "s_messages s = s_messages s'" by (simp add: inj_map_eq_map)
  with e show ?thesis by (cases s; cases s') (simp add: jsSession_def)
qed

lemma stringify_newSession1:
  "stringify (JArr (map jsSession [newSession1])) =
     0x5B # 0x7B # quoteJSONString (js ''id'') @ 0x3A # quoteJSONString (js ''s1'') @
       0x2C # quoteJSONString (js ''title'') @ 0x3A # quoteJSONString (js ''New Session'') @
       0x2C # quoteJSONString (js ''createdAt'') @ 0x3A #
         quoteJSONString (js ''2023-11-14T22:13:20.000Z'') @
       0x2C # quoteJSONString (js ''messages'') @ [0x3A, 0x5B, 0x5D, 0x7D, 0x5D]"
  by (simp add: jsSession_def newSession1_def mkSession_def clockA_def)


lemma length_quoteJSONString_ascii:
  "length (quoteJSONString (js ''id'')) = 4"
  "length (quoteJSONString (js ''s1'')) = 4"
  "length (quoteJSONString (js ''title'')) = 7"
  "length (quoteJSONString (js ''New Session'')) = 13"
  "length (quoteJSONString (js ''createdAt'')) = 11"
  "length (quoteJSONString (js ''2023-11-14T22:13:20.000Z'')) = 26"
  "length (quoteJSONString (js ''messages'')) = 10"
  by (simp_all add: quoteJSONString_def js_def isPair_def escapeUnit_def isSurrogate_def)

subsection \<open>Identifiers from distinct clock readings\<close>

text \<open>
  The decimal rendering of the clock is injective, so creations at pairwise different
  milliseconds give pairwise different ids, and deletions never break distinctness.
\<close>

lemma digit_unit_inj:
  assumes "a < 10" and "b < 10" and "(of_nat (48 + a) :: jschar) = of_nat (48 + b)"
  shows "a = b"
proof -
  from assms(3) have "unat (of_nat (48 + a) :: jschar) = unat (of_nat (48 + b) :: jschar)"
    by (rule arg_cong)
  then have "(48 + a) mod 65536 = (48 + b) mod 65536"
    by (simp only: unat_of_nat) simp
  with assms(1,2) show ?thesis by simp
qed

lemma digits_nonempty: "digits n \<noteq> []"
  by (subst digits.simps) simp

lemma digits_inj: "digits n = digits m \<Longrightarrow> n = m"
proof (induction n arbitrary: m rule: digits.induct)
  case (1 n)
  show ?case
  proof (cases "n < 10")
    case n: True
    show ?thesis
    proof (cases "m < 10")
      case True
      with n 1(2) show ?thesis
        by (simp add: digits.simps [of n] digits.simps [of m] digit_unit_inj)
    next
      case False
      with n 1(2) digits_nonempty [of "m div 10"] show ?thesis
        by (simp add: digits.simps [of n] digits.simps [of m])
    qed
  next
    case n: False
    show ?thesis
    proof (cases "m < 10")
      case True
      with n 1(2) digits_nonempty [of "n div 10"] show ?thesis
        by (simp add: digits.simps [of n] digits.simps [of m])
    next
      case False
      with n 1(2) have d: "digits (n div 10) = digits (m div 10)"
        and u: "(of_nat (48 + n mod 10) :: jschar) = of_nat (48 + m mod 10)"
        by (simp_all add: digits.simps [of n] digits.simps [of m])
      from 1(1) [OF n d] have q: "n div 10 = m div 10" .
      have r: "n mod 10 = m mod 10"
        by (rule digit_unit_inj [OF _ _ u]) simp_all
      from q r show ?thesis by (metis div_mult_mod_eq)
    qed
  qed
qed

lemma runOps_distinct_ids:
  assumes "distinct (map s_id (sessions st))"
    and "s_id ` set (sessions st) \<subseteq> (\<lambda>k. js ''sess_'' @ digits k) ` T"
    and "T \<inter> set (opTimes ops) = {}"
    and "distinct (opTimes ops)"
  shows "distinct (map s_id (sessions (runOps ops st)))"
  using assms
proof (induction ops arbitrary: st T)
  case Nil
  then show ?case by simp
next
  case (Cons x xs)
  show ?case
  proof (cases x)
    case (NewSession t)
    let ?new = "js ''sess_'' @ digits (date_now t)"
    from Cons.prems(3) NewSession have fresh: "date_now t \<notin> T" by simp
    have "?new \<notin> s_id ` set (sessions st)"
    proof
      assume "?new \<in> s_id ` set (sessions st)"
      with Cons.prems(2) obtain k where "k \<in> T" and "?new = js ''sess_'' @ digits k" by blast
      then have "date_now t = k" by (simp add: digits_inj)
      with \<open>k \<in> T\<close> fresh show False by simp
    qed
    with Cons.prems(1) have d: "distinct (map s_id (sessions (applyOp x st)))"
      by (simp add: NewSession handleNewSession_def createNewSession_def Let_def)
    from Cons.prems(2) have s: "s_id ` set (sessions (applyOp x st)) \<subseteq>
        (\<lambda>k. js ''sess_'' @ digits k) ` insert (date_now t) T"
      by (auto simp: NewSession handleNewSession_def createNewSession_def Let_def)
    from Cons.prems(3,4) NewSession have i: "insert (date_now t) T \<inter> set (opTimes xs) = {}"
      and dt: "distinct (opTimes xs)"
      by auto
    from Cons.IH [OF d s i dt] show ?thesis by simp
  next
    case (DeleteSession i)
    from Cons.prems(1) have d: "distinct (map s_id (sessions (applyOp x st)))"
      by (simp add: DeleteSession handleDeleteSession_def distinct_map_filter)
    from Cons.prems(2) have s: "s_id ` set (sessions (applyOp x st)) \<subseteq>
        (\<lambda>k. js ''sess_'' @ digits k) ` T"
      by (auto simp: DeleteSession handleDeleteSession_def)
    from Cons.prems(3,4) DeleteSession have i: "T \<inter> set (opTimes xs) = {}"
      and dt: "distinct (opTimes xs)"
      by auto
    from Cons.IH [OF d s i dt] show ?thesis by simp
  qed
qed

lemma runOps_distinct_from_empty:
  assumes "distinct (opTimes ops)"
  shows "distinct (map s_id (sessions (runOps ops emptyState)))"
  by (rule runOps_distinct_ids [where T = "{}"]) (simp_all add: emptyState_def assms)

section \<open>Session identifiers\<close>

text \<open>
  C1 says that session ids stay pairwise unique under every sequence of
  \<open>handleNewSession\<close> and \<open>handleDeleteSession\<close>. The code breaks this: the id is
  \<open>sess_\<close> followed by the millisecond clock, so two sessions created while
  \<open>Date.now()\<close> shows the same millisecond get the same id. From the empty collection,
  two creations at \<open>1700000000000\<close> leave two sessions that are both called
  \<open>sess_1700000000000\<close>. (By \<open>runOps_distinct_from_empty\<close> this is the only way to a
  duplicate.)
\<close>

theorem handleNewSession_same_millisecond:
  "map s_id (sessions (runOps [NewSession clockA, NewSession clockA] emptyState)) =
     [js ''sess_1700000000000'', js ''sess_1700000000000''] \<and>
   \<not> distinct (map s_id (sessions (runOps [NewSession clockA, NewSession clockA] emptyState)))"
  by (simp add: handleNewSession_def createNewSession_def sample_defs digits.simps Let_def)

section \<open>Deleting the active session\<close>

text \<open>
  C2. After \<open>handleDeleteSession\<close> of the active session the pointer is null or the id
  of a session still in the collection; it is null when no session remains, and, when no
  session has the empty string as its id, it is null only then.
\<close>

theorem handleDeleteSession_active_pointer:
  assumes "activeSessionId st = Some i"
  shows "(activeSessionId (handleDeleteSession i st) = None \<or>
          (\<exists>s \<in> set (sessions (handleDeleteSession i st)).
              activeSessionId (handleDeleteSession i st) = Some (s_id s))) \<and>
         (sessions (handleDeleteSession i st) = [] \<longrightarrow>
            activeSessionId (handleDeleteSession i st) = None) \<and>
         ((\<forall>s \<in> set (sessions st). s_id s \<noteq> []) \<longrightarrow>
            activeSessionId (handleDeleteSession i st) = None \<longrightarrow>
            sessions (handleDeleteSession i st) = [])"
proof (cases "find (\<lambda>s. s_id s \<noteq> i) (sessions st)")
  case None
  then show ?thesis using assms
    by (simp add: handleDeleteSession_def find_None_filter)
next
  case (Some s)
  then have in_f: "s \<in> set (filter (\<lambda>s. s_id s \<noteq> i) (sessions st))"
    by (rule find_filter_same)
  then have in_s: "s \<in> set (sessions st)" by simp
  show ?thesis
  proof (cases "s_id s = []")
    case True
    with Some assms in_s show ?thesis
      by (auto simp: handleDeleteSession_def)
  next
    case False
    with Some assms in_f find_Some_filter_hd [OF Some] show ?thesis
      by (auto simp: handleDeleteSession_def)
  qed
qed

text \<open>
  The theorem at a collection of two sessions with \<open>s2\<close> active: deleting \<open>s2\<close> leaves
  \<open>s1\<close>, and the pointer on it.
\<close>

theorem handleDeleteSession_active_pointer_witness:
  "activeSessionId stTwo = Some (js ''s2'') \<and>
   [] \<notin> set (map s_id (sessions stTwo)) \<and>
   activeSessionId (handleDeleteSession (js ''s2'') stTwo) = Some (js ''s1'') \<and>
   map s_id (sessions (handleDeleteSession (js ''s2'') stTwo)) = [js ''s1'']"
  using handleDeleteSession_active_pointer [of stTwo "js ''s2''"]
  by (simp add: handleDeleteSession_def sample_defs)

section \<open>The send protocol\<close>

text \<open>
  C8. When the question is empty or only whitespace, or no session is active,
  \<open>handleSend\<close> returns the state it was given: no message, no change to any session,
  \<open>isSending\<close> and every other cell as before.
\<close>

theorem handleSend_noop:
  assumes "trim (question st) = [] \<or> activeSession st = None"
  shows "handleSend ta tb out st = st"
  using assms
  by (auto simp: handleSend_def handleSend_run_def handleSend_begin_def split: option.splits)

text \<open>The theorem at a question of three spaces.\<close>

theorem handleSend_noop_witness:
  "trim (question stBlank) = [] \<and>
   handleSend clockA clockB (Resolved (js ''ok'')) stBlank = stBlank"
proof -
  have h: "trim (question stBlank) = []"
    by (simp add: sample_defs string_defs)
  then have "trim (question stBlank) = [] \<or> activeSession stBlank = None" ..
  from handleSend_noop [OF this] h show ?thesis by simp
qed


text \<open>
  C9. A question that is not blank, sent on an active session without messages and
  answered successfully, leaves that session with exactly two messages: the user's,
  whose content is the trimmed question, then the assistant's, whose content is the
  answer.
\<close>

theorem handleSend_first_exchange:
  assumes "activeSession st = Some a" and "s_messages a = []" and "trim (question st) \<noteq> []"
  shows "map_option s_messages (activeSession (handleSend ta tb (Resolved ans) st)) =
           Some [userMsg ta (question st), assistantMsg tb ans] \<and>
         m_role (userMsg ta (question st)) = User \<and>
         m_content (userMsg ta (question st)) = trim (question st) \<and>
         m_role (assistantMsg tb ans) = Assistant \<and>
         m_content (assistantMsg tb ans) = ans"
  using handleSend_resolved_active [OF assms(1) assms(3)] assms(2)
  by (simp add: userMsg_def assistantMsg_def)

text \<open>The theorem at the session \<open>s1\<close> and the question \<open>What is a B-tree?\<close>.\<close>

theorem handleSend_first_exchange_witness:
  "activeSession stBtree = Some newSession1 \<and>
   s_messages newSession1 = [] \<and>
   trim (question stBtree) \<noteq> [] \<and>
   map_option (\<lambda>s. map m_content (s_messages s))
     (activeSession (handleSend clockA clockB (Resolved (js ''A B-tree is a search tree.'')) stBtree)) =
     Some [js ''What is a B-tree?'', js ''A B-tree is a search tree.''] \<and>
   map_option (\<lambda>s. map m_role (s_messages s))
     (activeSession (handleSend clockA clockB (Resolved (js ''A B-tree is a search tree.'')) stBtree)) =
     Some [User, Assistant]"
proof -
  have q: "trim (question stBtree) \<noteq> []"
    by (simp add: trim_question_stBtree js_def)
  have m: "s_messages newSession1 = []"
    by (simp add: newSession1_def mkSession_def)
  have e: "\<And>x ms. map_option s_messages x = Some ms \<Longrightarrow>
      map_option (\<lambda>s. map m_content (s_messages s)) x = Some (map m_content ms) \<and>
      map_option (\<lambda>s. map m_role (s_messages s)) x = Some (map m_role ms)"
    by auto
  from handleSend_first_exchange [OF activeSession_stBtree m q, of clockA clockB
      "js ''A B-tree is a search tree.''"]
  have "map_option s_messages
      (activeSession (handleSend clockA clockB (Resolved (js ''A B-tree is a search tree.'')) stBtree)) =
      Some [userMsg clockA (question stBtree), assistantMsg clockB (js ''A B-tree is a search tree.'')]"
    by simp
  from e [OF this] activeSession_stBtree m q show ?thesis
    by (simp add: userMsg_def assistantMsg_def trim_question_stBtree)
qed

section \<open>The title of a session after its first exchange\<close>

text \<open>
  C3, as amended. When a send succeeds on an active session that had no message, the
  title of that session becomes the trimmed question if that has at most 42 code units,
  and otherwise its first 42 code units followed by one ellipsis.
\<close>

theorem handleSend_first_title:
  assumes "activeSession st = Some a" and "s_messages a = []" and "trim (question st) \<noteq> []"
  shows "map_option s_title (activeSession (handleSend ta tb (Resolved ans) st)) =
           Some (if length (trim (question st)) \<le> 42 then trim (question st)
                 else take 42 (trim (question st)) @ [ellipsis])"
  using handleSend_resolved_active [OF assms(1) assms(3)] assms(2)
  by (simp add: truncateTitle_def)

text \<open>
  The theorem at the question \<open>What is a B-tree?\<close>, which becomes the title, and at a
  question of 60 code units, of which the title keeps the first 42.
\<close>

theorem handleSend_first_title_witness:
  "activeSession stBtree = Some newSession1 \<and>
   activeSession stLong = Some newSession1 \<and>
   s_messages newSession1 = [] \<and>
   trim (question stBtree) \<noteq> [] \<and>
   length (trim (question stLong)) = 60 \<and>
   map_option s_title
     (activeSession (handleSend clockA clockB (Resolved (js ''A B-tree is a search tree.'')) stBtree)) =
     Some (js ''What is a B-tree?'') \<and>
   map_option s_title
     (activeSession (handleSend clockA clockB (Resolved (js ''A B-tree is a search tree.'')) stLong)) =
     Some (js ''Why does a B-tree stay balanced when many '' @ [ellipsis])"
proof -
  have q: "trim (question stBtree) \<noteq> []"
    by (simp add: trim_question_stBtree js_def)
  have m: "s_messages newSession1 = []"
    by (simp add: newSession1_def mkSession_def)
  have al: "activeSession stLong = Some newSession1"
    by (simp add: activeSession_def sample_defs)
  have tl: "trim (question stLong) =
      js ''Why does a B-tree stay balanced when many keys are inserted?''"
    by (simp add: sample_defs string_defs)
  then have ql: "trim (question stLong) \<noteq> []" and ll: "length (trim (question stLong)) = 60"
    by (simp_all add: js_def)
  from handleSend_first_title [OF activeSession_stBtree m q, of clockA clockB
      "js ''A B-tree is a search tree.''"]
  have 1: "map_option s_title
     (activeSession (handleSend clockA clockB (Resolved (js ''A B-tree is a search tree.'')) stBtree)) =
     Some (js ''What is a B-tree?'')"
    by (simp add: trim_question_stBtree js_def)
  from handleSend_first_title [OF al m ql, of clockA clockB "js ''A B-tree is a search tree.''"]
  have 2: "map_option s_title
     (activeSession (handleSend clockA clockB (Resolved (js ''A B-tree is a search tree.'')) stLong)) =
     Some (js ''Why does a B-tree stay balanced when many '' @ [ellipsis])"
    by (simp add: tl js_def)
  from activeSession_stBtree al m q ll 1 2 show ?thesis by simp
qed

text \<open>
  C3 as stated fails on a question with a leading space: the question \<open>hi\<close> after one
  space has three code units, and the title becomes \<open>hi\<close>, not the question itself.
\<close>

theorem handleSend_title_untrimmed_counterexample:
  "question stHi = js '' hi'' \<and>
   length (question stHi) \<le> 42 \<and>
   map_option s_title (activeSession (handleSend clockA clockB (Resolved (js ''ok'')) stHi)) =
     Some (js ''hi'') \<and>
   map_option s_title (activeSession (handleSend clockA clockB (Resolved (js ''ok'')) stHi)) \<noteq>
     Some (question stHi)"
  by (simp add: activeSession_def handleSend_def handleSend_run_def handleSend_begin_def
      handleSend_settle_def updateActiveSessionMessages_def truncateTitle_def userMsg_def
      assistantMsg_def sample_defs string_defs Let_def)

section \<open>Renaming\<close>

text \<open>
  C10, as amended. Renaming with a title that is not blank stores the trimmed title on
  every session that carries the id of the active session, and so on the active one;
  the other fields of those sessions, every session with another id, the order of the
  collection and the rest of the state are unchanged. When the ids are pairwise
  distinct this is the collection with the active session's title replaced at its
  position.
\<close>

theorem handleRename_by_id:
  assumes "activeSession st = Some a" and "trim title \<noteq> []"
  shows "handleRename (Some title) st =
           st\<lparr>sessions := sessions (handleRename (Some title) st)\<rparr> \<and>
         length (sessions (handleRename (Some title) st)) = length (sessions st) \<and>
         (\<forall>i<length (sessions st).
            sessions (handleRename (Some title) st) ! i =
              (if s_id (sessions st ! i) = s_id a
               then (sessions st ! i)\<lparr>s_title := trim title\<rparr>
               else sessions st ! i)) \<and>
         activeSession (handleRename (Some title) st) = Some (a\<lparr>s_title := trim title\<rparr>) \<and>
         (distinct (map s_id (sessions st)) \<longrightarrow>
            (\<exists>i<length (sessions st). sessions st ! i = a \<and>
               sessions (handleRename (Some title) st) =
                 (sessions st)[i := a\<lparr>s_title := trim title\<rparr>]))"
proof -
  let ?f = "\<lambda>s. if s_id s = s_id a then s\<lparr>s_title := trim title\<rparr> else s"
  from assms(2) have "title \<noteq> []" by (auto simp: trim_def)
  with assms have r: "handleRename (Some title) st = st\<lparr>sessions := map ?f (sessions st)\<rparr>"
    by (simp add: handleRename_def)
  have act: "activeSession (st\<lparr>sessions := map ?f (sessions st)\<rparr>) = Some (?f a)"
    by (rule activeSession_sessions_map [OF assms(1)]) simp
  have upd: "distinct (map s_id (sessions st)) \<longrightarrow>
      (\<exists>i<length (sessions st). sessions st ! i = a \<and>
         map ?f (sessions st) = (sessions st)[i := a\<lparr>s_title := trim title\<rparr>])"
  proof
    assume d: "distinct (map s_id (sessions st))"
    from assms(1) obtain k where "find (\<lambda>s. s_id s = k) (sessions st) = Some a"
      by (auto simp: activeSession_def split: option.splits)
    from rename_list_update [OF d this, of "trim title"]
    show "\<exists>i<length (sessions st). sessions st ! i = a \<and>
         map ?f (sessions st) = (sessions st)[i := a\<lparr>s_title := trim title\<rparr>]" .
  qed
  from act upd show ?thesis
    unfolding r by simp
qed

text \<open>The theorem at two sessions, renaming the active \<open>s2\<close> with spaces around the title.\<close>

theorem handleRename_by_id_witness:
  "activeSession stTwo = Some (mkSession ''s2'' ''B'' []) \<and>
   distinct (map s_id (sessions stTwo)) \<and>
   trim (js ''  B-trees  '') = js ''B-trees'' \<and>
   sessions (handleRename (Some (js ''  B-trees  '')) stTwo) =
     [mkSession ''s1'' ''A'' [], mkSession ''s2'' ''B-trees'' []] \<and>
   activeSession (handleRename (Some (js ''  B-trees  '')) stTwo) =
     Some (mkSession ''s2'' ''B-trees'' [])"
proof -
  have a: "activeSession stTwo = Some (mkSession ''s2'' ''B'' [])"
    by (simp add: activeSession_def sample_defs)
  have d: "distinct (map s_id (sessions stTwo))"
    by (simp add: sample_defs)
  have t: "trim (js ''  B-trees  '') = js ''B-trees''"
    by (simp add: js_def string_defs)
  then have n: "trim (js ''  B-trees  '') \<noteq> []"
    by (simp add: js_def)
  from handleRename_by_id [OF a n] d obtain i where
    i: "i < length (sessions stTwo)" "sessions stTwo ! i = mkSession ''s2'' ''B'' []"
      "sessions (handleRename (Some (js ''  B-trees  '')) stTwo) =
         (sessions stTwo)[i := (mkSession ''s2'' ''B'' [])
            \<lparr>s_title := trim (js ''  B-trees  '')\<rparr>]"
    and act: "activeSession (handleRename (Some (js ''  B-trees  '')) stTwo) =
         Some ((mkSession ''s2'' ''B'' [])\<lparr>s_title := trim (js ''  B-trees  '')\<rparr>)"
    by blast
  from i(1) have "i = 0 \<or> i = 1" by (auto simp: sample_defs)
  with i(2) have "i = 1" by (auto simp: sample_defs)
  with i(3) t have s: "sessions (handleRename (Some (js ''  B-trees  '')) stTwo) =
     [mkSession ''s1'' ''A'' [], mkSession ''s2'' ''B-trees'' []]"
    by (simp add: stTwo_def mkState_def mkSession_def)
  from act t have "activeSession (handleRename (Some (js ''  B-trees  '')) stTwo) =
     Some (mkSession ''s2'' ''B-trees'' [])"
    by (simp add: mkSession_def)
  with a d t s show ?thesis by simp
qed

text \<open>
  C10 as stated fails where two sessions carry one id, as after two creations in the
  same millisecond (C1): the first of them is the active one, and the rename changes
  the title of the second as well.
\<close>

theorem handleRename_duplicate_ids_counterexample:
  "map s_id (sessions stDup) = [js ''sess_1700000000000'', js ''sess_1700000000000''] \<and>
   activeSession stDup = Some (sessions stDup ! 0) \<and>
   map s_title (sessions stDup) = [js ''New Session'', js ''New Session''] \<and>
   map s_title (sessions (handleRename (Some (js ''  B-trees  '')) stDup)) =
     [js ''B-trees'', js ''B-trees''] \<and>
   sessions (handleRename (Some (js ''  B-trees  '')) stDup) ! 1 \<noteq> sessions stDup ! 1"
  by (simp add: handleRename_def activeSession_def handleNewSession_def createNewSession_def
      sample_defs string_defs digits.simps Let_def)

section \<open>Search\<close>

text \<open>
  C6, as amended. \<open>filteredSessions\<close> returns the input unchanged when the query trims
  to nothing; otherwise exactly the input sessions, in input order, whose lowercase
  title, or the lowercase content of one of whose messages, contains the lowercase of
  the trimmed query as a contiguous run. So \<open>FOO\<close> and \<open>foo\<close> select the same sessions.
  This holds whatever \<open>toLowerCase\<close> does to other strings, given that it maps only the
  empty string to the empty string and takes \<open>FOO\<close> and \<open>foo\<close> to the same string.
\<close>

theorem filteredSessions_char:
  assumes "\<And>s. lc s = [] \<longleftrightarrow> s = []" and "lc (js ''FOO'') = lc (js ''foo'')"
  shows "filteredSessions lc ss srch =
           (if trim srch = [] then ss
            else filter (\<lambda>s. sublist (lc (trim srch)) (lc (s_title s)) \<or>
                             (\<exists>m \<in> set (s_messages s).
                                sublist (lc (trim srch)) (lc (m_content m))))
                   ss) \<and>
         filteredSessions lc ss (js ''FOO'') = filteredSessions lc ss (js ''foo'')"
proof
  show "filteredSessions lc ss srch =
     (if trim srch = [] then ss
      else filter (\<lambda>s. sublist (lc (trim srch)) (lc (s_title s)) \<or>
                       (\<exists>m \<in> set (s_messages s).
                          sublist (lc (trim srch)) (lc (m_content m))))
             ss)"
    by (simp add: filteredSessions_def includesStr_sublist list_ex_iff Let_def assms(1))
  have "trim (js ''FOO'') = js ''FOO''" and "trim (js ''foo'') = js ''foo''"
    by (simp_all add: js_def trim_def isWhiteSpace_def)
  with assms(2) have "lc (trim (js ''FOO'')) = lc (trim (js ''foo''))"
    by simp
  then show "filteredSessions lc ss (js ''FOO'') = filteredSessions lc ss (js ''foo'')"
    by (simp add: filteredSessions_def)
qed

text \<open>
  The theorem at the lowercase map of Basic Latin and two sessions, of which the query
  \<open>FOO\<close> selects the first.
\<close>

theorem filteredSessions_char_witness:
  "(\<forall>s. (lowerBasicLatin s = []) = (s = [])) \<and>
   lowerBasicLatin (js ''FOO'') = lowerBasicLatin (js ''foo'') \<and>
   filteredSessions lowerBasicLatin
     [mkSession ''s1'' ''Foo fighters'' [], mkSession ''s2'' ''bar'' []] (js ''FOO'') =
     [mkSession ''s1'' ''Foo fighters'' []] \<and>
   filteredSessions lowerBasicLatin
     [mkSession ''s1'' ''Foo fighters'' [], mkSession ''s2'' ''bar'' []] (js ''foo'') =
     [mkSession ''s1'' ''Foo fighters'' []]"
proof -
  have h1: "\<And>s. lowerBasicLatin s = [] \<longleftrightarrow> s = []"
    by (rule lowerBasicLatin_Nil_iff)
  have h2: "lowerBasicLatin (js ''FOO'') = lowerBasicLatin (js ''foo'')"
    by (simp add: js_def string_defs)
  have e: "filteredSessions lowerBasicLatin
      [mkSession ''s1'' ''Foo fighters'' [], mkSession ''s2'' ''bar'' []] (js ''foo'') =
      [mkSession ''s1'' ''Foo fighters'' []]"
    by (simp add: filteredSessions_def sample_defs string_defs)
  from filteredSessions_char [OF h1 h2,
      of "[mkSession ''s1'' ''Foo fighters'' [], mkSession ''s2'' ''bar'' []]" "js ''FOO''"]
  have "filteredSessions lowerBasicLatin
      [mkSession ''s1'' ''Foo fighters'' [], mkSession ''s2'' ''bar'' []] (js ''FOO'') =
    filteredSessions lowerBasicLatin
      [mkSession ''s1'' ''Foo fighters'' [], mkSession ''s2'' ''bar'' []] (js ''foo'')"
    by (rule conjunct2)
  with h1 h2 e show ?thesis by simp
qed

text \<open>
  C6 as stated, with the query lowercased but not trimmed, fails on a query with a
  trailing space: \<open>filteredSessions\<close> finds the session titled \<open>foo\<close> for the query
  \<open>foo\<close> followed by a space, and the contract as worded selects nothing. (All the
  text is lowercase ASCII, which \<open>toLowerCase\<close> leaves as it is.)
\<close>

theorem filteredSessions_untrimmed_counterexample:
  "filteredSessions lowerBasicLatin [mkSession ''s1'' ''foo'' []] (js ''foo '') =
     [mkSession ''s1'' ''foo'' []] \<and>
   spec_filterSessions lowerBasicLatin [mkSession ''s1'' ''foo'' []] (js ''foo '') = []"
  by (simp add: filteredSessions_def spec_filterSessions_def sample_defs string_defs)

section \<open>Persistence\<close>

text \<open>
  C4, as amended. For every sequence of sessions \<open>S\<close>, when the store accepts the write
  (\<open>setItem\<close> does not throw), \<open>saveSessions\<close> of \<open>S\<close> followed by \<open>loadSessions\<close> on
  the resulting store returns the objects of \<open>S\<close>, equal by value and in order.
\<close>

theorem saveSessions_loadSessions:
  assumes "setItem ls MockStorage_key (stringify (JArr (map jsSession S))) = Inr ls'"
  shows "saveSessions ls (map jsSession S) = Inr ls' \<and>
         loadSessions ls' = Inr (map jsSession S)"
  using assms loadSessions_after_setItem [OF assms jsonSafe_sessions]
  by (simp add: saveSessions_def)

text \<open>The theorem at a store with room, and the one session \<open>s1\<close>.\<close>

theorem saveSessions_loadSessions_witness:
  "setItem emptyStore MockStorage_key (stringify (JArr (map jsSession [newSession1]))) =
     Inr (emptyStore\<lparr>ls_items :=
            [(MockStorage_key, stringify (JArr (map jsSession [newSession1])))]\<rparr>) \<and>
   saveSessions emptyStore (map jsSession [newSession1]) =
     Inr (emptyStore\<lparr>ls_items :=
            [(MockStorage_key, stringify (JArr (map jsSession [newSession1])))]\<rparr>) \<and>
   loadSessions (emptyStore\<lparr>ls_items :=
            [(MockStorage_key, stringify (JArr (map jsSession [newSession1])))]\<rparr>) =
     Inr (map jsSession [newSession1])"
proof -
  have "length (stringify (JArr (map jsSession [newSession1]))) = 88"
    unfolding stringify_newSession1 by (simp add: length_quoteJSONString_ascii)
  then have h: "setItem emptyStore MockStorage_key (stringify (JArr (map jsSession [newSession1]))) =
     Inr (emptyStore\<lparr>ls_items :=
            [(MockStorage_key, stringify (JArr (map jsSession [newSession1])))]\<rparr>)"
    by (simp add: setItem_def storedSize_def emptyStore_def MockStorage_key_def js_def)
  from saveSessions_loadSessions [OF h] h show ?thesis by simp
qed

text \<open>
  C4 as stated fails on a store that refuses the write: with a quota of zero
  \<open>setItem\<close> throws, \<open>saveSessions\<close> ignores it, and \<open>loadSessions\<close> returns the empty
  sequence, not the saved one.
\<close>

theorem saveSessions_full_store_counterexample:
  "saveSessions fullStore (map jsSession [newSession1]) = Inr fullStore \<and>
   loadSessions fullStore = Inr [] \<and>
   map jsSession [newSession1] \<noteq> []"
  by (simp add: saveSessions_def setItem_def storedSize_def fullStore_def loadSessions_def
      loadSessions_try_def getItem_def MockStorage_key_def js_def)

text \<open>
  C5. \<open>loadSessions\<close> never raises; it returns the empty sequence when the key is
  absent, when the stored text does not parse, and when it parses to something that is
  not an array; and the text \<open>not json\<close> does not parse. (It returns the elements when
  the text parses to an array.)
\<close>

theorem loadSessions_never_raises:
  "(\<exists>xs. loadSessions ls = Inr xs) \<and>
   (getItem ls MockStorage_key = Inr None \<longrightarrow> loadSessions ls = Inr []) \<and>
   (\<forall>raw e. getItem ls MockStorage_key = Inr (Some raw) \<longrightarrow> JSON_parse raw = Inl e \<longrightarrow>
      loadSessions ls = Inr []) \<and>
   (\<forall>raw v. getItem ls MockStorage_key = Inr (Some raw) \<longrightarrow> JSON_parse raw = Inr v \<longrightarrow>
      (\<forall>xs. v \<noteq> JArr xs) \<longrightarrow> loadSessions ls = Inr []) \<and>
   (\<forall>raw xs. getItem ls MockStorage_key = Inr (Some raw) \<longrightarrow> raw \<noteq> [] \<longrightarrow>
      JSON_parse raw = Inr (JArr xs) \<longrightarrow> loadSessions ls = Inr xs) \<and>
   JSON_parse (js ''not json'') = Inl SyntaxError"
proof (intro conjI allI impI)
  show "\<exists>xs. loadSessions ls = Inr xs"
    by (cases "loadSessions_try ls") (simp_all add: loadSessions_def)
next
  assume "getItem ls MockStorage_key = Inr None"
  then show "loadSessions ls = Inr []"
    by (simp add: loadSessions_def loadSessions_try_def)
next
  fix raw e
  assume "getItem ls MockStorage_key = Inr (Some raw)" and "JSON_parse raw = Inl e"
  then show "loadSessions ls = Inr []"
    by (simp add: loadSessions_def loadSessions_try_def)
next
  fix raw v
  assume "getItem ls MockStorage_key = Inr (Some raw)" and "JSON_parse raw = Inr v"
    and "\<forall>xs. v \<noteq> JArr xs"
  then show "loadSessions ls = Inr []"
    by (cases v) (simp_all add: loadSessions_def loadSessions_try_def)
next
  fix raw xs
  assume "getItem ls MockStorage_key = Inr (Some raw)" and "raw \<noteq> []"
    and "JSON_parse raw = Inr (JArr xs)"
  then show "loadSessions ls = Inr xs"
    by (simp add: loadSessions_def loadSessions_try_def)
next
  show "JSON_parse (js ''not json'') = Inl SyntaxError"
    by (simp add: JSON_parse_def js_def lex.simps isJsonSpace_def isDigit_def)
qed

text \<open>The theorem at a store that holds the text \<open>not json\<close> under the key.\<close>

theorem loadSessions_never_raises_witness:
  "getItem corruptStore MockStorage_key = Inr (Some (js ''not json'')) \<and>
   JSON_parse (js ''not json'') = Inl SyntaxError \<and>
   loadSessions corruptStore = Inr []"
proof -
  have g: "getItem corruptStore MockStorage_key = Inr (Some (js ''not json''))"
    by (simp add: getItem_def corruptStore_def)
  from loadSessions_never_raises [of corruptStore] g show ?thesis by blast
qed

end
